theory Spec2Isabelle
  imports Main
begin

chapter \<open>The program\<close>

section \<open>Python values used by the program\<close>

text \<open>
  The program is Python: integers are unbounded (\<open>int\<close>), a failed \<open>assert\<close> raises
  \<open>AssertionError\<close> and a list read or write outside the list raises \<open>IndexError\<close>.
  Every function that can raise returns \<open>error + 'a\<close>, with \<open>Inl\<close> the exception.
\<close>

datatype error = AssertionError | IndexError

text \<open>Sequencing: an exception raised by the first computation ends the whole one.\<close>

definition bind_err :: "error + 'a \<Rightarrow> ('a \<Rightarrow> error + 'b) \<Rightarrow> error + 'b" where
  "bind_err m f = (case m of Inl err \<Rightarrow> Inl err | Inr x \<Rightarrow> f x)"

text \<open>
  A \<open>for\<close> loop over a list that the body does not change: \<open>for_each\<close> when the body
  updates a state, \<open>collect\<close> when each round appends some results to a list. Either
  stops at the first exception.
\<close>

fun for_each :: "('a \<Rightarrow> 's \<Rightarrow> error + 's) \<Rightarrow> 'a list \<Rightarrow> 's \<Rightarrow> error + 's" where
  "for_each body [] s = Inr s"
| "for_each body (x # xs) s = bind_err (body x s) (for_each body xs)"

fun collect :: "('a \<Rightarrow> error + 'b list) \<Rightarrow> 'a list \<Rightarrow> error + 'b list" where
  "collect body [] = Inr []"
| "collect body (x # xs) =
     bind_err (body x) (\<lambda>r. bind_err (collect body xs) (\<lambda>rs. Inr (r @ rs)))"

text \<open>
  Python list subscripts: an index \<open>i\<close> with \<open>0 \<le> i < len\<close> is position \<open>i\<close>, an index
  with \<open>-len \<le> i < 0\<close> counts from the end, every other index raises.
\<close>

definition py_index :: "nat \<Rightarrow> int \<Rightarrow> nat option" where
  "py_index len i =
     (if 0 \<le> i \<and> i < int len then Some (nat i)
      else if - int len \<le> i \<and> i < 0 then Some (nat (int len + i))
      else None)"

definition py_get :: "'a list \<Rightarrow> int \<Rightarrow> error + 'a" where
  "py_get xs i = (case py_index (length xs) i of
                    None \<Rightarrow> Inl IndexError
                  | Some j \<Rightarrow> Inr (xs ! j))"

definition py_set :: "'a list \<Rightarrow> int \<Rightarrow> 'a \<Rightarrow> error + 'a list" where
  "py_set xs i v = (case py_index (length xs) i of
                      None \<Rightarrow> Inl IndexError
                    | Some j \<Rightarrow> Inr (xs[j := v]))"

text \<open>\<open>enumerate(xs)\<close>: the elements paired with their positions, counted from 0.\<close>

definition py_enumerate :: "'a list \<Rightarrow> (int \<times> 'a) list" where
  "py_enumerate xs = zip (map int [0..<length xs]) xs"

text \<open>
  A \<open>dict\<close> keeps its keys in insertion order; it is an association list with distinct
  keys. Storing under a present key keeps the key's position, a new key goes to the end.
\<close>

fun dict_set :: "'k \<Rightarrow> 'v \<Rightarrow> ('k \<times> 'v) list \<Rightarrow> ('k \<times> 'v) list" where
  "dict_set key v [] = [(key, v)]"
| "dict_set key v ((key', v') # kvs) =
     (if key' = key then (key, v) # kvs else (key', v') # dict_set key v kvs)"

definition dict_keys :: "('k \<times> 'v) list \<Rightarrow> 'k list" where
  "dict_keys d = map fst d"

definition dict_has :: "'k \<Rightarrow> ('k \<times> 'v) list \<Rightarrow> bool" where
  "dict_has key d = (key \<in> set (dict_keys d))"

text \<open>\<open>d.get(key, default)\<close>\<close>

definition dict_get :: "('k \<times> 'v) list \<Rightarrow> 'k \<Rightarrow> 'v \<Rightarrow> 'v" where
  "dict_get d key dflt = (case map_of d key of None \<Rightarrow> dflt | Some v \<Rightarrow> v)"

text \<open>\<open>d[key] += 1\<close> on a \<open>defaultdict(int)\<close>: a missing key counts as 0.\<close>

definition dict_incr :: "'k \<Rightarrow> ('k \<times> int) list \<Rightarrow> ('k \<times> int) list" where
  "dict_incr key d = dict_set key (dict_get d key 0 + 1) d"

text \<open>
  A Python \<open>set\<close> of integers is modelled by the list of its elements, distinct and in
  ascending order, which is also the order in which the model iterates over it.
\<close>

definition py_set_of :: "int list \<Rightarrow> int list" where
  "py_set_of xs = sort (remdups xs)"

definition set_and :: "int list \<Rightarrow> int list \<Rightarrow> int list" where
  "set_and A B = filter (\<lambda>y. y \<in> set B) A"

definition set_or :: "int list \<Rightarrow> int list \<Rightarrow> int list" where
  "set_or A B = py_set_of (A @ B)"

definition set_minus :: "int list \<Rightarrow> int list \<Rightarrow> int list" where
  "set_minus A B = filter (\<lambda>y. y \<notin> set B) A"

section \<open>The graph model (intervals.py)\<close>

text \<open>
  \<open>TwoInterval\<close>: a closed interval \<open>[l, r]\<close>, empty when \<open>l\<close> or \<open>r\<close> is \<open>None\<close>. The
  fields \<open>l\<close> and \<open>r\<close> of the source are \<open>iv_l\<close> and \<open>iv_r\<close> here.
\<close>

record TwoInterval =
  iv_l :: "int option"
  iv_r :: "int option"

definition is_empty :: "TwoInterval \<Rightarrow> bool" where
  "is_empty it = (iv_l it = None \<or> iv_r it = None)"

definition iv_contains :: "TwoInterval \<Rightarrow> int \<Rightarrow> bool" where
  "iv_contains it i = (if is_empty it then False else the (iv_l it) \<le> i \<and> i \<le> the (iv_r it))"

definition is_left_endpoint :: "TwoInterval \<Rightarrow> int \<Rightarrow> bool" where
  "is_left_endpoint it i = (\<not> is_empty it \<and> iv_l it = Some i)"

definition is_right_endpoint :: "TwoInterval \<Rightarrow> int \<Rightarrow> bool" where
  "is_right_endpoint it i = (\<not> is_empty it \<and> iv_r it = Some i)"

definition strictly_inside :: "TwoInterval \<Rightarrow> int \<Rightarrow> bool" where
  "strictly_inside it i = (if is_empty it then False else the (iv_l it) < i \<and> i < the (iv_r it))"

record YVertex =
  first :: TwoInterval
  second :: TwoInterval

type_synonym edge = "string \<times> int \<times> string \<times> int"

text \<open>
  \<open>TwoIntervalBipartiteGraph\<close>: the two constructor arguments (\<open>n\<close>, here \<open>g_n\<close>, and
  \<open>y_vertices\<close>) and the two fields that \<open>__post_init__\<close> derives from them.
\<close>

record graph =
  g_n :: int
  y_vertices :: "YVertex list"
  neighbors_x :: "int list list"
  edges :: "edge set"

text \<open>The assertion \<open>0 <= it.l <= it.r < self.n\<close>, made for a non-empty interval only.\<close>

definition bounds_ok :: "int \<Rightarrow> TwoInterval \<Rightarrow> bool" where
  "bounds_ok n it = (is_empty it \<or> (0 \<le> the (iv_l it) \<and> the (iv_l it) \<le> the (iv_r it) \<and> the (iv_r it) < n))"

text \<open>The assertion \<open>yv.first.r < yv.second.l\<close>, made when both intervals are non-empty.\<close>

definition order_ok :: "YVertex \<Rightarrow> bool" where
  "order_ok yv = (is_empty (first yv) \<or> is_empty (second yv) \<or> the (iv_r (first yv)) < the (iv_l (second yv)))"

text \<open>The first loop of \<open>__post_init__\<close>: the assertions, vertex by vertex.\<close>

fun check_y_vertices :: "int \<Rightarrow> YVertex list \<Rightarrow> error + unit" where
  "check_y_vertices n [] = Inr ()"
| "check_y_vertices n (yv # yvs) =
     (if \<not> bounds_ok n (first yv) then Inl AssertionError
      else if \<not> bounds_ok n (second yv) then Inl AssertionError
      else if \<not> order_ok yv then Inl AssertionError
      else check_y_vertices n yvs)"

text \<open>
  The second loop: for every point \<open>i\<close> of a non-empty interval of vertex \<open>y_idx\<close>,
  \<open>neighbors_x[i].append(y_idx)\<close> and \<open>edges.add(("X", i, "Y", y_idx))\<close>. The loop runs
  after the assertions, so \<open>0 \<le> i < n\<close> and the subscript is inside the list.
\<close>

definition add_point :: "int \<Rightarrow> int \<Rightarrow> int list list \<times> edge set \<Rightarrow> int list list \<times> edge set" where
  "add_point y_idx i acc =
     ((fst acc)[nat i := (fst acc) ! nat i @ [y_idx]], insert (''X'', i, ''Y'', y_idx) (snd acc))"

definition add_interval :: "int \<Rightarrow> TwoInterval \<Rightarrow> int list list \<times> edge set \<Rightarrow> int list list \<times> edge set" where
  "add_interval y_idx it acc =
     (if is_empty it then acc else fold (add_point y_idx) [the (iv_l it)..the (iv_r it)] acc)"

definition add_y_vertex :: "int \<times> YVertex \<Rightarrow> int list list \<times> edge set \<Rightarrow> int list list \<times> edge set" where
  "add_y_vertex p acc = add_interval (fst p) (second (snd p)) (add_interval (fst p) (first (snd p)) acc)"

definition build_adjacency :: "int \<Rightarrow> YVertex list \<Rightarrow> int list list \<times> edge set" where
  "build_adjacency n ys = fold add_y_vertex (py_enumerate ys) (replicate (nat n) [], {})"

text \<open>\<open>TwoIntervalBipartiteGraph(n, y_vertices)\<close>: the constructor with \<open>__post_init__\<close>.\<close>

definition Construct :: "int \<Rightarrow> YVertex list \<Rightarrow> error + graph" where
  "Construct n ys =
     (if int (length ys) \<noteq> n then Inl AssertionError
      else bind_err (check_y_vertices n ys) (\<lambda>_.
             Inr \<lparr> g_n = n, y_vertices = ys,
                   neighbors_x = fst (build_adjacency n ys),
                   edges = snd (build_adjacency n ys) \<rparr>))"

text \<open>\<open>classify_events_at(i)\<close>: the four event sets \<open>E1\<close>..\<open>E4\<close> at X-index \<open>i\<close>.\<close>

definition events_of :: "graph \<Rightarrow> (YVertex \<Rightarrow> bool) \<Rightarrow> int list" where
  "events_of g P = map fst (filter (\<lambda>p. P (snd p)) (py_enumerate (y_vertices g)))"

definition classify_events_at :: "graph \<Rightarrow> int \<Rightarrow> int list \<times> int list \<times> int list \<times> int list" where
  "classify_events_at g i =
     (events_of g (\<lambda>yv. is_left_endpoint (first yv) i),
      events_of g (\<lambda>yv. is_right_endpoint (first yv) i),
      events_of g (\<lambda>yv. is_left_endpoint (second yv) i),
      events_of g (\<lambda>yv. is_right_endpoint (second yv) i))"

text \<open>\<open>neighbors_of_x(i)\<close>: \<open>self.neighbors_x[i] if 0 <= i < self.n else []\<close>.\<close>

definition neighbors_of_x :: "graph \<Rightarrow> int \<Rightarrow> error + int list" where
  "neighbors_of_x g i = (if 0 \<le> i \<and> i < g_n g then py_get (neighbors_x g) i else Inr [])"

text \<open>\<open>is_convex_at(y, i)\<close>: the largest right endpoint of \<open>y\<close>'s non-empty intervals is at most \<open>i\<close>.\<close>

definition is_convex_at :: "graph \<Rightarrow> int \<Rightarrow> int \<Rightarrow> error + bool" where
  "is_convex_at g y i =
     bind_err (py_get (y_vertices g) y) (\<lambda>yv.
       let rs = (if \<not> is_empty (first yv) then [the (iv_r (first yv))] else [])
              @ (if \<not> is_empty (second yv) then [the (iv_r (second yv))] else [])
       in if rs = [] then Inr False else Inr (Max (set rs) \<le> i))"

section \<open>The DP engine (dp_solver.py)\<close>

text \<open>\<open>DPState\<close>: the triple \<open>(k, O, L)\<close>; the field \<open>k\<close> of the source is \<open>dp_k\<close>
  here, and the local variable \<open>O\<close> of the methods is \<open>Os\<close>.\<close>

record DPState =
  dp_k :: int
  open_set :: "int list"
  loose_flag :: int

record DPPredecessor =
  prev_state :: DPState
  transition_type :: string
  added_edges :: "edge list"

record DPStats =
  total_states :: int
  states_per_k :: "(int \<times> int) list"
  max_states_per_k :: int
  stats_transitions_per_type :: "(string \<times> int) list"
  accepted :: bool

text \<open>
  The mutable part of a \<open>HamiltonianDPSolver\<close>: its three dictionaries. The graph
  \<open>self.g\<close> (with \<open>self.n = graph.n\<close>) never changes and is a parameter of every method.
\<close>

record solver =
  reachable :: "(DPState \<times> bool) list"
  predecessor :: "(DPState \<times> DPPredecessor) list"
  transitions_per_type :: "(string \<times> int) list"

definition HamiltonianDPSolver :: solver where
  "HamiltonianDPSolver = \<lparr> reachable = [], predecessor = [], transitions_per_type = [] \<rparr>"

definition check_stack_order :: "graph \<Rightarrow> int \<Rightarrow> int \<Rightarrow> error + bool" where
  "check_stack_order g y1 y2 =
     bind_err (py_get (y_vertices g) y1) (\<lambda>yv1.
     bind_err (py_get (y_vertices g) y2) (\<lambda>yv2.
       if is_empty (second yv1) \<or> is_empty (first yv2) then Inr False
       else Inr (the (iv_l (second yv1)) > the (iv_r (first yv2)))))"

text \<open>
  What both \<open>_initial_states\<close> and \<open>run\<close> do with a state that is not yet a key of
  \<open>reachable\<close>: mark it, record its predecessor, count the transition type.
\<close>

definition discover :: "DPState \<Rightarrow> DPPredecessor \<Rightarrow> solver \<Rightarrow> solver" where
  "discover s p e =
     e\<lparr> reachable := dict_set s True (reachable e),
        predecessor := dict_set s p (predecessor e),
        transitions_per_type := dict_incr (transition_type p) (transitions_per_type e) \<rparr>"

text \<open>The body of the loop of \<open>_initial_states\<close> over the neighbours \<open>y\<close> of \<open>x0\<close>.\<close>

definition init_body :: "graph \<Rightarrow> int \<Rightarrow> solver \<Rightarrow> error + solver" where
  "init_body g y e =
     bind_err (py_get (y_vertices g) y) (\<lambda>yv.
       let Os = (if \<not> is_empty (second yv) \<and> the (iv_l (second yv)) > 0 then [y] else []);
           s = \<lparr> dp_k = 1, open_set = Os, loose_flag = 1 \<rparr>
       in if \<not> dict_has s (reachable e)
          then Inr (discover s \<lparr> prev_state = \<lparr> dp_k = 0, open_set = [], loose_flag = 1 \<rparr>,
                                 transition_type = ''INIT'',
                                 added_edges = [(''X'', 0, ''Y'', y)] \<rparr> e)
          else Inr e)"

definition initial_states :: "graph \<Rightarrow> solver \<Rightarrow> error + solver" where
  "initial_states g e =
     (let base = \<lparr> dp_k = 1, open_set = [], loose_flag = 1 \<rparr>;
          e1 = e\<lparr> reachable := dict_set base True (reachable e) \<rparr>
      in bind_err (neighbors_of_x g 0) (\<lambda>x0_neighbors. for_each (init_body g) x0_neighbors e1))"

type_synonym transition = "DPState \<times> string \<times> edge list"

text \<open>The bodies of the loops of \<open>_enumerate_transitions\<close>, one per rule.\<close>

definition t1_body :: "int \<Rightarrow> int list \<Rightarrow> int \<Rightarrow> error + transition list" where
  "t1_body k Os yclose =
     Inr [(\<lparr> dp_k = k + 1, open_set = sort (filter (\<lambda>y. y \<noteq> yclose) Os), loose_flag = 0 \<rparr>,
           ''T1'', [(''X'', k, ''Y'', yclose)])]"

definition t2_body :: "graph \<Rightarrow> int \<Rightarrow> int list \<Rightarrow> int \<Rightarrow> error + transition list" where
  "t2_body g k Os yopen =
     (if length Os \<ge> 2 then Inr []
      else bind_err (if length Os = 1
                     then bind_err (check_stack_order g (Os ! 0) yopen) (\<lambda>ok.
                            if \<not> ok then Inr None else Inr (Some (py_set_of [Os ! 0, yopen])))
                     else Inr (Some (py_set_of [yopen])))
             (\<lambda>O_after. case O_after of
                 None \<Rightarrow> Inr []
               | Some Oa \<Rightarrow>
                   Inr [(\<lparr> dp_k = k + 1, open_set = sort Oa, loose_flag = 0 \<rparr>,
                         ''T2'', [(''X'', k, ''Y'', yopen)])]))"

definition t3_body :: "graph \<Rightarrow> int \<Rightarrow> int list \<Rightarrow> int \<Rightarrow> int \<Rightarrow> error + transition list" where
  "t3_body g k Os yclose yopen =
     (let O_before = filter (\<lambda>y. y \<noteq> yclose) Os
      in if length O_before > 1 then Inr []
         else bind_err (if length O_before = 1
                        then bind_err (check_stack_order g (O_before ! 0) yopen) (\<lambda>ok.
                               if \<not> ok then Inr None else Inr (Some (py_set_of [O_before ! 0, yopen])))
                        else Inr (Some (py_set_of [yopen])))
                (\<lambda>O_after. case O_after of
                    None \<Rightarrow> Inr []
                  | Some Oa \<Rightarrow>
                      Inr [(\<lparr> dp_k = k + 1, open_set = sort Oa, loose_flag = 0 \<rparr>,
                            ''T3'', [(''X'', k, ''Y'', yclose), (''X'', k, ''Y'', yopen)])]))"

definition t4_body :: "graph \<Rightarrow> int \<Rightarrow> int list \<Rightarrow> int \<Rightarrow> error + transition list" where
  "t4_body g k Os y =
     bind_err (is_convex_at g y k) (\<lambda>convex.
       if \<not> convex then Inr []
       else Inr [(\<lparr> dp_k = k + 1, open_set = sort Os, loose_flag = 1 \<rparr>,
                  ''T4'', [(''X'', k, ''Y'', y)])])"

definition t5_results :: "int \<Rightarrow> int list \<Rightarrow> int \<Rightarrow> int list \<times> int list \<times> int list \<times> int list \<Rightarrow> transition list" where
  "t5_results k Os L ev =
     (case ev of (E1, E2, E3, E4) \<Rightarrow>
        if \<not> (E1 \<noteq> [] \<or> E2 \<noteq> [] \<or> E3 \<noteq> [] \<or> E4 \<noteq> [])
        then [(\<lparr> dp_k = k + 1, open_set = sort Os, loose_flag = L \<rparr>, ''T5'', [])]
        else [])"

text \<open>\<open>_enumerate_transitions(state)\<close>: with \<open>i = k\<close>, the rules in the order T1..T5.\<close>

definition enumerate_transitions :: "graph \<Rightarrow> DPState \<Rightarrow> error + transition list" where
  "enumerate_transitions g state =
     (let n = g_n g; k = dp_k state; Os = open_set state; L = loose_flag state
      in if k \<ge> n then Inr []
         else bind_err (neighbors_of_x g k) (\<lambda>v_neighbors.
           if v_neighbors = [] then Inr []
           else (case classify_events_at g k of (E1, E2, E3, E4) \<Rightarrow>
             let Oset = py_set_of Os
             in bind_err (if L = 1 then collect (t1_body k Os) (set_and Oset E3) else Inr []) (\<lambda>r1.
                bind_err (if L = 1 then collect (t2_body g k Os) (set_minus (set_or E1 E2) Oset)
                          else Inr []) (\<lambda>r2.
                bind_err (if L = 0
                          then collect (\<lambda>yclose. collect (t3_body g k Os yclose) (set_minus E2 Oset))
                                 (set_and Oset E3)
                          else Inr []) (\<lambda>r3.
                bind_err (if L = 1 then collect (t4_body g k Os) v_neighbors else Inr []) (\<lambda>r4.
                Inr (r1 @ r2 @ r3 @ r4 @ t5_results k Os L (E1, E2, E3, E4)))))))))"

text \<open>The three nested loops of \<open>run\<close>, innermost first.\<close>

definition process_transition :: "DPState \<Rightarrow> transition \<Rightarrow> solver \<Rightarrow> error + solver" where
  "process_transition state t e =
     (case t of (new_state, ttype, es) \<Rightarrow>
        if \<not> dict_has new_state (reachable e)
        then Inr (discover new_state
                    \<lparr> prev_state = state, transition_type = ttype, added_edges = es \<rparr> e)
        else Inr e)"

definition process_state :: "graph \<Rightarrow> DPState \<Rightarrow> solver \<Rightarrow> error + solver" where
  "process_state g state e =
     (if \<not> dict_get (reachable e) state False then Inr e
      else bind_err (enumerate_transitions g state) (\<lambda>ts.
             for_each (process_transition state) ts e))"

definition process_layer :: "graph \<Rightarrow> int \<Rightarrow> solver \<times> (int \<times> int) list \<Rightarrow> error + solver \<times> (int \<times> int) list" where
  "process_layer g k acc =
     (let current_states = filter (\<lambda>s. dp_k s = k) (dict_keys (reachable (fst acc)));
          spk = dict_set k (int (length current_states)) (snd acc)
      in bind_err (for_each (process_state g) current_states (fst acc)) (\<lambda>e'. Inr (e', spk)))"

text \<open>\<open>run()\<close>: returns the statistics, and the solver as the call leaves it.\<close>

definition run :: "graph \<Rightarrow> solver \<Rightarrow> error + DPStats \<times> solver" where
  "run g e =
     (let e0 = e\<lparr> reachable := [], predecessor := [], transitions_per_type := [] \<rparr>
      in bind_err (initial_states g e0) (\<lambda>e1.
         bind_err (for_each (process_layer g) [1..g_n g - 1] (e1, [])) (\<lambda>acc.
           let e2 = fst acc; spk = snd acc;
               final_state = \<lparr> dp_k = g_n g, open_set = [], loose_flag = 0 \<rparr>
           in Inr (\<lparr> total_states = int (length (reachable e2)),
                      states_per_k = spk,
                      max_states_per_k = (if spk \<noteq> [] then Max (set (map snd spk)) else 0),
                      stats_transitions_per_type = transitions_per_type e2,
                      accepted = dict_get (reachable e2) final_state False \<rparr>, e2))))"

definition has_hamiltonian_cycle :: "graph \<Rightarrow> solver \<Rightarrow> error + bool \<times> solver" where
  "has_hamiltonian_cycle g e = bind_err (run g e) (\<lambda>r. Inr (accepted (fst r), snd r))"

section \<open>The backtracking validator (backtracking.py)\<close>

text \<open>
  The local variables that \<open>find_cycle\<close> shares with its nested function \<open>dfs\<close>: the
  two marker arrays and the path buffer. \<open>dfs\<close> changes them in place; the model passes
  them in and returns them.
\<close>

record bt_state =
  visited_x :: "bool list"
  visited_y :: "bool list"
  path :: "(string \<times> int) list"

text \<open>The loop that fills \<open>y_neighbors\<close> from \<open>x_neighbors = self.g.neighbors_x\<close>.\<close>

definition build_y_neighbors :: "graph \<Rightarrow> error + int list list" where
  "build_y_neighbors g =
     for_each (\<lambda>i yn. bind_err (py_get (neighbors_x g) i) (\<lambda>nbrs.
                 for_each (\<lambda>y yn'. bind_err (py_get yn' y) (\<lambda>l. py_set yn' y (l @ [i]))) nbrs yn))
       [0..g_n g - 1] (replicate (nat (g_n g)) [])"

definition is_edge :: "graph \<Rightarrow> int \<Rightarrow> int \<Rightarrow> error + bool" where
  "is_edge g i y = bind_err (py_get (neighbors_x g) i) (\<lambda>nbrs. Inr (y \<in> set nbrs))"

text \<open>
  What follows a computation is only run when that computation returned: the rule that
  lets a recursive call stand after \<open>bind_err\<close>.
\<close>

lemma bind_err_cong [fundef_cong]:
  "m = m' \<Longrightarrow> (\<And>x. m' = Inr x \<Longrightarrow> f x = f' x) \<Longrightarrow> bind_err m f = bind_err m' f'"
  by (auto simp: bind_err_def split: sum.splits)

text \<open>
  \<open>dfs(current_is_x, current_idx)\<close> and its two \<open>for\<close> loops (\<open>dfs_loop\<close>, over the
  neighbours \<open>v # vs\<close> still to try: the loop of the \<open>X -> Y\<close> branch when
  \<open>current_is_x\<close>, of the \<open>Y -> X\<close> branch otherwise). \<open>path[0]\<close> and \<open>path.pop()\<close> on an
  empty path raise \<open>IndexError\<close>.
\<close>

function dfs :: "graph \<Rightarrow> int list list \<Rightarrow> bool \<Rightarrow> int \<Rightarrow> bt_state \<Rightarrow> error + bool \<times> bt_state"
  and dfs_loop :: "graph \<Rightarrow> int list list \<Rightarrow> bool \<Rightarrow> int list \<Rightarrow> bt_state \<Rightarrow> error + bool \<times> bt_state"
where
  "dfs g yn current_is_x current_idx st =
     (if int (length (path st)) = 2 * g_n g
      then bind_err (py_get (path st) 0) (\<lambda>p0.
             if current_is_x = (fst p0 = ''X'') then Inr (False, st)
             else if current_is_x then bind_err (is_edge g current_idx (snd p0)) (\<lambda>b. Inr (b, st))
             else bind_err (is_edge g (snd p0) current_idx) (\<lambda>b. Inr (b, st)))
      else if current_is_x
      then bind_err (py_get (neighbors_x g) current_idx) (\<lambda>nbrs. dfs_loop g yn True nbrs st)
      else bind_err (py_get yn current_idx) (\<lambda>nbrs. dfs_loop g yn False nbrs st))"
| "dfs_loop g yn current_is_x [] st = Inr (False, st)"
| "dfs_loop g yn current_is_x (v # vs) st =
     (if current_is_x
      then bind_err (py_get (visited_y st) v) (\<lambda>seen.
             if seen then dfs_loop g yn current_is_x vs st
             else bind_err (py_set (visited_y st) v True) (\<lambda>vy.
                  bind_err (dfs g yn False v (st\<lparr> visited_y := vy, path := path st @ [(''Y'', v)] \<rparr>)) (\<lambda>r.
                    if fst r then Inr (True, snd r)
                    else if path (snd r) = [] then Inl IndexError
                    else bind_err (py_set (visited_y (snd r)) v False) (\<lambda>vy'.
                           dfs_loop g yn current_is_x vs
                             ((snd r)\<lparr> path := butlast (path (snd r)), visited_y := vy' \<rparr>)))))
      else bind_err (py_get (visited_x st) v) (\<lambda>seen.
             if seen then dfs_loop g yn current_is_x vs st
             else bind_err (py_set (visited_x st) v True) (\<lambda>vx.
                  bind_err (dfs g yn True v (st\<lparr> visited_x := vx, path := path st @ [(''X'', v)] \<rparr>)) (\<lambda>r.
                    if fst r then Inr (True, snd r)
                    else if path (snd r) = [] then Inl IndexError
                    else bind_err (py_set (visited_x (snd r)) v False) (\<lambda>vx'.
                           dfs_loop g yn current_is_x vs
                             ((snd r)\<lparr> path := butlast (path (snd r)), visited_x := vx' \<rparr>))))))"
  by pat_completeness auto

text \<open>The number of unmarked vertices: it decreases along every recursive call.\<close>

definition unvisited :: "bt_state \<Rightarrow> nat" where
  "unvisited st = length (filter Not (visited_x st)) + length (filter Not (visited_y st))"

text \<open>
  The loop of \<open>find_cycle\<close> over the start vertices: reset both marker arrays, clear the
  path, mark and push the start, search.
\<close>

definition reset_markers :: "int \<Rightarrow> bt_state \<Rightarrow> error + bt_state" where
  "reset_markers i st =
     bind_err (py_set (visited_x st) i False) (\<lambda>vx.
     bind_err (py_set (visited_y st) i False) (\<lambda>vy.
       Inr (st\<lparr> visited_x := vx, visited_y := vy \<rparr>)))"

fun try_starts :: "graph \<Rightarrow> int list list \<Rightarrow> int list \<Rightarrow> bt_state \<Rightarrow> error + (string \<times> int) list option" where
  "try_starts g yn [] st = Inr None"
| "try_starts g yn (start # rest) st =
     bind_err (for_each reset_markers [0..g_n g - 1] st) (\<lambda>st1.
     bind_err (py_set (visited_x st1) start True) (\<lambda>vx.
     bind_err (dfs g yn True start (st1\<lparr> visited_x := vx, path := [(''X'', start)] \<rparr>)) (\<lambda>r.
       if fst r then Inr (Some (path (snd r))) else try_starts g yn rest (snd r))))"

definition find_cycle :: "graph \<Rightarrow> error + (string \<times> int) list option" where
  "find_cycle g =
     (if g_n g = 0 then Inr (Some [])
      else bind_err (build_y_neighbors g) (\<lambda>y_neighbors.
             try_starts g y_neighbors [0..g_n g - 1]
               \<lparr> visited_x = replicate (nat (g_n g)) False,
                  visited_y = replicate (nat (g_n g)) False,
                  path = [] \<rparr>))"

section \<open>What a Hamiltonian cycle is\<close>

text \<open>
  The properties a returned cycle is required to have, stated on the sequence of
  side-tagged indices: the tags alternate, starting with \<open>X\<close>; two neighbours in the
  sequence are joined by an edge of the graph, an edge always running between an
  \<open>X\<close>-index and a \<open>Y\<close>-index; and every index of either side occurs exactly once.
\<close>

fun alternates :: "bool \<Rightarrow> (string \<times> int) list \<Rightarrow> bool" where
  "alternates want_x [] = True"
| "alternates want_x (p # ps) = (fst p = (if want_x then ''X'' else ''Y'') \<and> alternates (\<not> want_x) ps)"

definition adjacent :: "graph \<Rightarrow> string \<times> int \<Rightarrow> string \<times> int \<Rightarrow> bool" where
  "adjacent g a b =
     (fst a = ''X'' \<and> fst b = ''Y'' \<and> (''X'', snd a, ''Y'', snd b) \<in> edges g
      \<or> fst a = ''Y'' \<and> fst b = ''X'' \<and> (''X'', snd b, ''Y'', snd a) \<in> edges g)"

fun edges_along :: "graph \<Rightarrow> (string \<times> int) list \<Rightarrow> bool" where
  "edges_along g [] = True"
| "edges_along g [a] = True"
| "edges_along g (a # b # ps) = (adjacent g a b \<and> edges_along g (b # ps))"

definition visits_once :: "int \<Rightarrow> string \<Rightarrow> (string \<times> int) list \<Rightarrow> bool" where
  "visits_once n tag ps = list_all (\<lambda>i. count_list ps (tag, i) = 1) [0..n - 1]"

definition is_hamiltonian_cycle :: "graph \<Rightarrow> (string \<times> int) list \<Rightarrow> bool" where
  "is_hamiltonian_cycle g ps =
     (int (length ps) = 2 * g_n g \<and> alternates True ps
      \<and> visits_once (g_n g) ''X'' ps \<and> visits_once (g_n g) ''Y'' ps
      \<and> edges_along g ps \<and> (ps = [] \<or> adjacent g (last ps) (hd ps)))"

section \<open>The graphs of the test suite (tests/test_small_graphs.py)\<close>

definition hamiltonian_n3_y_vertices :: "YVertex list" where
  "hamiltonian_n3_y_vertices =
     [\<lparr> first = \<lparr> iv_l = Some 0, iv_r = Some 1 \<rparr>, second = \<lparr> iv_l = None, iv_r = None \<rparr> \<rparr>,
      \<lparr> first = \<lparr> iv_l = Some 1, iv_r = Some 2 \<rparr>, second = \<lparr> iv_l = None, iv_r = None \<rparr> \<rparr>,
      \<lparr> first = \<lparr> iv_l = Some 0, iv_r = Some 0 \<rparr>, second = \<lparr> iv_l = Some 2, iv_r = Some 2 \<rparr> \<rparr>]"

definition build_hamiltonian_n3_graph :: "error + graph" where
  "build_hamiltonian_n3_graph = Construct 3 hamiltonian_n3_y_vertices"

definition non_hamiltonian_n3_y_vertices :: "YVertex list" where
  "non_hamiltonian_n3_y_vertices =
     [\<lparr> first = \<lparr> iv_l = Some 0, iv_r = Some 1 \<rparr>, second = \<lparr> iv_l = None, iv_r = None \<rparr> \<rparr>,
      \<lparr> first = \<lparr> iv_l = Some 1, iv_r = Some 2 \<rparr>, second = \<lparr> iv_l = None, iv_r = None \<rparr> \<rparr>,
      \<lparr> first = \<lparr> iv_l = Some 0, iv_r = Some 0 \<rparr>, second = \<lparr> iv_l = None, iv_r = None \<rparr> \<rparr>]"

definition build_non_hamiltonian_n3_graph :: "error + graph" where
  "build_non_hamiltonian_n3_graph = Construct 3 non_hamiltonian_n3_y_vertices"

text \<open>The two graphs as the constructor leaves them.\<close>

definition hamiltonian_n3_graph :: graph where
  "hamiltonian_n3_graph =
     \<lparr> g_n = 3, y_vertices = hamiltonian_n3_y_vertices,
       neighbors_x = [[0, 2], [0, 1], [1, 2]],
       edges = {(''X'', 0, ''Y'', 0), (''X'', 1, ''Y'', 0), (''X'', 1, ''Y'', 1),
                (''X'', 2, ''Y'', 1), (''X'', 0, ''Y'', 2), (''X'', 2, ''Y'', 2)} \<rparr>"

definition non_hamiltonian_n3_graph :: graph where
  "non_hamiltonian_n3_graph =
     \<lparr> g_n = 3, y_vertices = non_hamiltonian_n3_y_vertices,
       neighbors_x = [[0, 2], [0, 1], [1]],
       edges = {(''X'', 0, ''Y'', 0), (''X'', 1, ''Y'', 0), (''X'', 1, ''Y'', 1),
                (''X'', 2, ''Y'', 1), (''X'', 0, ''Y'', 2)} \<rparr>"

definition n3_cycle :: "(string \<times> int) list" where
  "n3_cycle = [(''X'', 0), (''Y'', 0), (''X'', 1), (''Y'', 1), (''X'', 2), (''Y'', 2)]"

text \<open>The statistics of a run on the first graph.\<close>

definition hamiltonian_n3_stats :: DPStats where
  "hamiltonian_n3_stats =
     \<lparr> total_states = 11, states_per_k = [(1, 2), (2, 5)], max_states_per_k = 5,
       stats_transitions_per_type = [(''INIT'', 1), (''T2'', 4), (''T4'', 4), (''T1'', 1)],
       accepted = True \<rparr>"

text \<open>The states that a run on the first graph reaches, in the order of their discovery.\<close>

definition hamiltonian_n3_states :: "DPState list" where
  "hamiltonian_n3_states =
     [\<lparr> dp_k = 1, open_set = [], loose_flag = 1 \<rparr>,
      \<lparr> dp_k = 1, open_set = [2], loose_flag = 1 \<rparr>,
      \<lparr> dp_k = 2, open_set = [0], loose_flag = 0 \<rparr>,
      \<lparr> dp_k = 2, open_set = [1], loose_flag = 0 \<rparr>,
      \<lparr> dp_k = 2, open_set = [], loose_flag = 1 \<rparr>,
      \<lparr> dp_k = 2, open_set = [0, 2], loose_flag = 0 \<rparr>,
      \<lparr> dp_k = 2, open_set = [2], loose_flag = 1 \<rparr>,
      \<lparr> dp_k = 3, open_set = [1], loose_flag = 0 \<rparr>,
      \<lparr> dp_k = 3, open_set = [], loose_flag = 1 \<rparr>,
      \<lparr> dp_k = 3, open_set = [], loose_flag = 0 \<rparr>,
      \<lparr> dp_k = 3, open_set = [2], loose_flag = 1 \<rparr>]"

section \<open>The notions the properties are stated with\<close>

text \<open>The bounds that every DP state is to keep.\<close>

definition state_ok :: "int \<Rightarrow> DPState \<Rightarrow> bool" where
  "state_ok n s = (0 \<le> dp_k s \<and> dp_k s \<le> n \<and> length (open_set s) \<le> 2
                   \<and> (loose_flag s = 0 \<or> loose_flag s = 1))"

subsection \<open>Graph construction\<close>

text \<open>
  The neighbourhood of a Y-vertex: the X-indices that one of its two intervals contains.
\<close>

definition covers :: "YVertex \<Rightarrow> int \<Rightarrow> bool" where
  "covers yv i = (iv_contains (first yv) i \<or> iv_contains (second yv) i)"

definition y_vertices_ok :: "int \<Rightarrow> YVertex list \<Rightarrow> bool" where
  "y_vertices_ok n ys = (\<forall>yv\<in>set ys. bounds_ok n (first yv) \<and> bounds_ok n (second yv) \<and> order_ok yv)"

text \<open>
  The three ways in which the arguments of the constructor can violate the structural
  invariant: the number of Y-vertices is not \<open>n\<close>; a non-empty interval has a bound outside
  \<open>[0, n-1]\<close> or \<open>l > r\<close>; both intervals of a Y-vertex are non-empty and \<open>first.r < second.l\<close>
  fails.
\<close>

definition structural_invariant_violated :: "int \<Rightarrow> YVertex list \<Rightarrow> bool" where
  "structural_invariant_violated n ys =
     (int (length ys) \<noteq> n
      \<or> (\<exists>yv\<in>set ys. \<exists>it\<in>{first yv, second yv}.
            \<not> is_empty it
            \<and> \<not> (0 \<le> the (iv_l it) \<and> the (iv_l it) \<le> the (iv_r it) \<and> the (iv_r it) \<le> n - 1))
      \<or> (\<exists>yv\<in>set ys. \<not> is_empty (first yv) \<and> \<not> is_empty (second yv)
            \<and> \<not> the (iv_r (first yv)) < the (iv_l (second yv))))"

text \<open>
  A graph whose adjacency and edge set are fully built: the list of X-index \<open>i\<close> holds, in
  ascending order, exactly the Y-indices whose intervals cover \<open>i\<close>, and the edge set holds
  exactly the pairs of an X-index and a Y-index that covers it.
\<close>

definition fully_built :: "int \<Rightarrow> YVertex list \<Rightarrow> graph \<Rightarrow> bool" where
  "fully_built n ys g =
     (g_n g = n \<and> y_vertices g = ys \<and> length (neighbors_x g) = nat n
      \<and> (\<forall>i. 0 \<le> i \<and> i < n \<longrightarrow>
            neighbors_x g ! nat i = filter (\<lambda>y. covers (ys ! nat y) i) (map int [0..<length ys]))
      \<and> edges g = {(''X'', i, ''Y'', y) | i y. 0 \<le> y \<and> y < n \<and> covers (ys ! nat y) i})"

text \<open>Every value a solver stores in \<open>reachable\<close> is \<open>True\<close>.\<close>

definition all_true :: "('k \<times> bool) list \<Rightarrow> bool" where
  "all_true d = (\<forall>p\<in>set d. snd p)"

subsection \<open>The states the DP can reach\<close>

text \<open>
  The state that seeding derives from a neighbour \<open>y\<close> of \<open>x0\<close>: \<open>(1, O, L=1)\<close> with
  \<open>O = {y}\<close> if \<open>y\<close>'s second interval is non-empty and starts right of 0, else \<open>O\<close> empty.
\<close>

definition init_state :: "int \<Rightarrow> YVertex \<Rightarrow> DPState" where
  "init_state y yv =
     \<lparr> dp_k = 1,
       open_set = (if \<not> is_empty (second yv) \<and> the (iv_l (second yv)) > 0 then [y] else []),
       loose_flag = 1 \<rparr>"

text \<open>
  The run protocol as a closure: the seeds of layer 1, and every successor that a
  transition yields from a reachable state of a layer \<open>k\<close> with \<open>1 \<le> k \<le> n - 1\<close>.
\<close>

inductive_set dp_reach :: "graph \<Rightarrow> DPState set" for g :: graph where
  base: "\<lparr> dp_k = 1, open_set = [], loose_flag = 1 \<rparr> \<in> dp_reach g"
| init: "neighbors_of_x g 0 = Inr nb \<Longrightarrow> y \<in> set nb \<Longrightarrow> py_get (y_vertices g) y = Inr yv
         \<Longrightarrow> init_state y yv \<in> dp_reach g"
| step: "s \<in> dp_reach g \<Longrightarrow> 1 \<le> dp_k s \<Longrightarrow> dp_k s \<le> g_n g - 1
         \<Longrightarrow> enumerate_transitions g s = Inr ts \<Longrightarrow> (s', ttype, es) \<in> set ts
         \<Longrightarrow> s' \<in> dp_reach g"

definition open_in_range :: "graph \<Rightarrow> DPState \<Rightarrow> bool" where
  "open_in_range g s = (\<forall>y\<in>set (open_set s). 0 \<le> y \<and> y < g_n g)"

subsection \<open>The run protocol\<close>

text \<open>The states that are keys of a solver's \<open>reachable\<close> dictionary.\<close>

definition reachable_states :: "solver \<Rightarrow> DPState set" where
  "reachable_states e = set (dict_keys (reachable e))"

text \<open>The successor states that the transitions of a state yield.\<close>

definition successors :: "graph \<Rightarrow> DPState \<Rightarrow> DPState set" where
  "successors g s = (case enumerate_transitions g s of Inl _ \<Rightarrow> {} | Inr ts \<Rightarrow> fst ` set ts)"

text \<open>
  What holds when the layers below \<open>k\<close> have been processed: the keys of \<open>reachable\<close> are
  the reachable states of the layers up to \<open>k\<close>, each marked \<open>True\<close>.
\<close>

definition layer_inv :: "graph \<Rightarrow> int \<Rightarrow> solver \<Rightarrow> bool" where
  "layer_inv g k e = (all_true (reachable e) \<and> reachable_states e = {s \<in> dp_reach g. dp_k s \<le> k})"

text \<open>A solver whose dictionaries hold entries of an earlier run on some other graph.\<close>

definition stale_solver :: solver where
  "stale_solver =
     \<lparr> reachable = [(\<lparr> dp_k = 3, open_set = [], loose_flag = 0 \<rparr>, True)],
       predecessor = [],
       transitions_per_type = [(''T5'', 7)] \<rparr>"

section \<open>More graphs to run the program on\<close>

definition single_edge_y_vertices :: "YVertex list" where
  "single_edge_y_vertices =
     [\<lparr> first = \<lparr> iv_l = Some 0, iv_r = Some 0 \<rparr>, second = \<lparr> iv_l = None, iv_r = None \<rparr> \<rparr>]"

definition single_edge_graph :: graph where
  "single_edge_graph =
     \<lparr> g_n = 1, y_vertices = single_edge_y_vertices, neighbors_x = [[0]],
       edges = {(''X'', 0, ''Y'', 0)} \<rparr>"

definition empty_graph :: graph where
  "empty_graph = \<lparr> g_n = 0, y_vertices = [], neighbors_x = [], edges = {} \<rparr>"

text \<open>Two more graphs: one where \<open>X1\<close> lies inside every interval, one where it has no neighbour.\<close>

definition interior_n3_y_vertices :: "YVertex list" where
  "interior_n3_y_vertices =
     [\<lparr> first = \<lparr> iv_l = Some 0, iv_r = Some 2 \<rparr>, second = \<lparr> iv_l = None, iv_r = None \<rparr> \<rparr>,
      \<lparr> first = \<lparr> iv_l = Some 0, iv_r = Some 2 \<rparr>, second = \<lparr> iv_l = None, iv_r = None \<rparr> \<rparr>,
      \<lparr> first = \<lparr> iv_l = Some 0, iv_r = Some 2 \<rparr>, second = \<lparr> iv_l = None, iv_r = None \<rparr> \<rparr>]"

definition interior_n3_graph :: graph where
  "interior_n3_graph =
     \<lparr> g_n = 3, y_vertices = interior_n3_y_vertices,
       neighbors_x = [[0, 1, 2], [0, 1, 2], [0, 1, 2]],
       edges = {(''X'', 0, ''Y'', 0), (''X'', 1, ''Y'', 0), (''X'', 2, ''Y'', 0),
                (''X'', 0, ''Y'', 1), (''X'', 1, ''Y'', 1), (''X'', 2, ''Y'', 1),
                (''X'', 0, ''Y'', 2), (''X'', 1, ''Y'', 2), (''X'', 2, ''Y'', 2)} \<rparr>"

definition isolated_x1_y_vertices :: "YVertex list" where
  "isolated_x1_y_vertices =
     [\<lparr> first = \<lparr> iv_l = Some 0, iv_r = Some 0 \<rparr>, second = \<lparr> iv_l = None, iv_r = None \<rparr> \<rparr>,
      \<lparr> first = \<lparr> iv_l = Some 0, iv_r = Some 0 \<rparr>, second = \<lparr> iv_l = None, iv_r = None \<rparr> \<rparr>]"

definition isolated_x1_graph :: graph where
  "isolated_x1_graph =
     \<lparr> g_n = 2, y_vertices = isolated_x1_y_vertices,
       neighbors_x = [[0, 1], []],
       edges = {(''X'', 0, ''Y'', 0), (''X'', 0, ''Y'', 1)} \<rparr>"

section \<open>What holds during the backtracking search\<close>

text \<open>
  What the search needs of \<open>y_neighbors\<close>: one list per Y-index, each entry an X-index
  adjacent to it.
\<close>

definition y_neighbors_ok :: "graph \<Rightarrow> int list list \<Rightarrow> bool" where
  "y_neighbors_ok g yn =
     (length yn = nat (g_n g)
      \<and> (\<forall>y<nat (g_n g). \<forall>i\<in>set (yn ! y).
            0 \<le> i \<and> i < g_n g \<and> int y \<in> set (neighbors_x g ! nat i)))"

text \<open>
  What holds of the markers and the path throughout the search: the path alternates from
  an \<open>X\<close>-vertex on, follows edges, repeats no vertex and stays within the index range, and
  the markers of either side mark exactly the vertices on the path.
\<close>

definition bt_inv :: "graph \<Rightarrow> bt_state \<Rightarrow> bool" where
  "bt_inv g st =
     (length (visited_x st) = nat (g_n g) \<and> length (visited_y st) = nat (g_n g)
      \<and> alternates True (path st) \<and> edges_along g (path st) \<and> distinct (path st)
      \<and> (\<forall>p\<in>set (path st). 0 \<le> snd p \<and> snd p < g_n g)
      \<and> (\<forall>i<nat (g_n g). visited_x st ! i \<longleftrightarrow> (''X'', int i) \<in> set (path st))
      \<and> (\<forall>y<nat (g_n g). visited_y st ! y \<longleftrightarrow> (''Y'', int y) \<in> set (path st)))"

text \<open>The search succeeded: the path holds \<open>2n\<close> vertices and its last is adjacent to its first.\<close>

definition closes_cycle :: "graph \<Rightarrow> bt_state \<Rightarrow> bool" where
  "closes_cycle g st =
     (bt_inv g st \<and> int (length (path st)) = 2 * g_n g \<and> adjacent g (last (path st)) (hd (path st)))"

text \<open>A call of \<open>dfs\<close> either succeeds or leaves markers and path as they were.\<close>

definition dfs_result_ok :: "graph \<Rightarrow> bt_state \<Rightarrow> bool \<times> bt_state \<Rightarrow> bool" where
  "dfs_result_ok g st r = (if fst r then closes_cycle g (snd r) else snd r = st)"

chapter \<open>Its properties\<close>

section \<open>Termination of the search\<close>

lemma bind_err_simps [simp]:
  "bind_err (Inr x) f = f x"
  "bind_err (Inl err) f = Inl err"
  by (simp_all add: bind_err_def)

lemma bind_err_eq_Inr: "bind_err m f = Inr y \<longleftrightarrow> (\<exists>x. m = Inr x \<and> f x = Inr y)"
  by (cases m) simp_all

lemma py_get_eq_Inr: "py_get xs i = Inr v \<longleftrightarrow> (\<exists>j. py_index (length xs) i = Some j \<and> v = xs ! j)"
  by (auto simp: py_get_def split: option.splits)

lemma py_set_eq_Inr: "py_set xs i v = Inr ys \<longleftrightarrow> (\<exists>j. py_index (length xs) i = Some j \<and> ys = xs[j := v])"
  by (auto simp: py_set_def split: option.splits)

lemma py_index_less: "py_index len i = Some j \<Longrightarrow> j < len"
  by (auto simp: py_index_def split: if_splits)

lemma filter_Not_mark: "j < length xs \<Longrightarrow> \<not> xs ! j \<Longrightarrow> length (filter Not (xs[j := True])) < length (filter Not xs)"
proof (induction xs arbitrary: j)
  case Nil
  then show ?case by simp
next
  case (Cons x xs)
  then show ?case by (cases j) auto
qed

lemma list_update_False_same: "\<not> xs ! j \<Longrightarrow> xs[j := False] = xs"
  by (metis list_update_id)

lemma dfs_restores_dom:
  "dfs_dfs_loop_dom (Inl (g, yn, b, idx, st)) \<Longrightarrow> (\<And>st'. dfs g yn b idx st = Inr (False, st') \<Longrightarrow> st' = st)"
  "dfs_dfs_loop_dom (Inr (g, yn, b, vs, st)) \<Longrightarrow> (\<And>st'. dfs_loop g yn b vs st = Inr (False, st') \<Longrightarrow> st' = st)"
proof (induction g yn b idx st and g yn b vs st rule: dfs_dfs_loop.pinduct)
  case (1 g yn current_is_x current_idx st)
  from "1.prems" "1.IH" show ?case
    by (auto simp: dfs.psimps[OF "1.hyps"] bind_err_eq_Inr split: if_splits)
next
  case (2 g yn current_is_x st)
  then show ?case by (simp add: dfs_loop.psimps)
next
  case (3 g yn current_is_x v vs st)
  note P = "3.prems"[unfolded dfs_loop.psimps(2)[OF "3.hyps"]]
  show ?case
  proof (cases current_is_x)
    case True
    from P True obtain seen where seen: "py_get (visited_y st) v = Inr seen"
      by (auto simp: dfs_loop.psimps(2)[OF "3.hyps"] bind_err_eq_Inr)
    show ?thesis
    proof (cases seen)
      case T: True
      with P True seen "3.IH"(1) show ?thesis
        by auto
    next
      case F: False
      from P True seen F obtain vy r where
        vy: "py_set (visited_y st) v True = Inr vy" and
        r: "dfs g yn False v (st\<lparr>visited_y := vy, path := path st @ [(''Y'', v)]\<rparr>) = Inr r" and
        nf: "\<not> fst r"
        by (auto simp: bind_err_eq_Inr split: if_splits)
      from "3.IH"(2)[OF True seen F vy] r nf
      have req: "snd r = st\<lparr>visited_y := vy, path := path st @ [(''Y'', v)]\<rparr>"
        by (cases r) auto
      from seen F vy obtain j where j: "py_index (length (visited_y st)) v = Some j"
        "\<not> visited_y st ! j" "vy = (visited_y st)[j := True]"
        by (auto simp: py_get_eq_Inr py_set_eq_Inr)
      have undo: "py_set (visited_y (snd r)) v False = Inr (visited_y st)"
        using j by (simp add: req py_set_def list_update_False_same)
      have st3: "(snd r)\<lparr>path := butlast (path (snd r)), visited_y := visited_y st\<rparr> = st"
        by (simp add: req)
      from P True seen F vy r nf undo st3
      have "dfs_loop g yn current_is_x vs st = Inr (False, st')"
        by (auto simp: req split: if_splits)
      moreover have "\<And>st'. dfs_loop g yn current_is_x vs st = Inr (False, st') \<Longrightarrow> st' = st"
        using "3.IH"(3)[OF True seen F vy r nf _ undo] st3 by (simp add: req)
      ultimately show ?thesis by blast
    qed
  next
    case False
    from P False obtain seen where seen: "py_get (visited_x st) v = Inr seen"
      by (auto simp: dfs_loop.psimps(2)[OF "3.hyps"] bind_err_eq_Inr)
    show ?thesis
    proof (cases seen)
      case T: True
      with P False seen "3.IH"(4) show ?thesis
        by auto
    next
      case F: False
      from P False seen F obtain vx r where
        vx: "py_set (visited_x st) v True = Inr vx" and
        r: "dfs g yn True v (st\<lparr>visited_x := vx, path := path st @ [(''X'', v)]\<rparr>) = Inr r" and
        nf: "\<not> fst r"
        by (auto simp: bind_err_eq_Inr split: if_splits)
      from "3.IH"(5)[OF False seen F vx] r nf
      have req: "snd r = st\<lparr>visited_x := vx, path := path st @ [(''X'', v)]\<rparr>"
        by (cases r) auto
      from seen F vx obtain j where j: "py_index (length (visited_x st)) v = Some j"
        "\<not> visited_x st ! j" "vx = (visited_x st)[j := True]"
        by (auto simp: py_get_eq_Inr py_set_eq_Inr)
      have undo: "py_set (visited_x (snd r)) v False = Inr (visited_x st)"
        using j by (simp add: req py_set_def list_update_False_same)
      have st3: "(snd r)\<lparr>path := butlast (path (snd r)), visited_x := visited_x st\<rparr> = st"
        by (simp add: req)
      from P False seen F vx r nf undo st3
      have "dfs_loop g yn current_is_x vs st = Inr (False, st')"
        by (auto simp: req split: if_splits)
      moreover have "\<And>st'. dfs_loop g yn current_is_x vs st = Inr (False, st') \<Longrightarrow> st' = st"
        using "3.IH"(6)[OF False seen F vx r nf _ undo] st3 by (simp add: req)
      ultimately show ?thesis by blast
    qed
  qed
qed

lemma dfs_dfs_loop_total: "\<forall>a. dfs_dfs_loop_dom a"
proof (relation "measures
    [\<lambda>a. case a of Inl (g, yn, b, idx, st) \<Rightarrow> unvisited st | Inr (g, yn, b, vs, st) \<Rightarrow> unvisited st,
     \<lambda>a. case a of Inl _ \<Rightarrow> 1 | Inr _ \<Rightarrow> 0,
     \<lambda>a. case a of Inl _ \<Rightarrow> 0 | Inr (g, yn, b, vs, st) \<Rightarrow> length vs]", goal_cases)
  case 1
  show ?case by simp
next
  case (2 g yn current_is_x current_idx st x)
  show ?case by simp
next
  case (3 g yn current_is_x current_idx st x)
  show ?case by simp
next
  case (4 g yn current_is_x v vs st x)
  show ?case by simp
next
  case (5 g yn current_is_x v vs st x xa)
  then obtain j where j: "py_index (length (visited_y st)) v = Some j"
    "\<not> visited_y st ! j" "xa = (visited_y st)[j := True]"
    by (auto simp: py_get_eq_Inr py_set_eq_Inr)
  from filter_Not_mark[OF py_index_less[OF j(1)] j(2)] j(3)
  show ?case by (simp add: unvisited_def)
next
  case (6 g yn current_is_x v vs st x xa xb xc)
  from 6(5) dfs_restores_dom(1)[OF 6(9), of "snd xb"] 6(6)
  have req: "snd xb = st\<lparr>visited_y := xa, path := path st @ [(''Y'', v)]\<rparr>"
    by (cases xb) auto
  from 6(2,3,4) obtain j where j: "py_index (length (visited_y st)) v = Some j"
    "\<not> visited_y st ! j" "xa = (visited_y st)[j := True]"
    by (auto simp: py_get_eq_Inr py_set_eq_Inr)
  from 6(8) j have "xc = visited_y st"
    by (simp add: req py_set_def list_update_False_same)
  then show ?case by (simp add: req unvisited_def)
next
  case (7 g yn current_is_x v vs st x)
  show ?case by simp
next
  case (8 g yn current_is_x v vs st x xa)
  then obtain j where j: "py_index (length (visited_x st)) v = Some j"
    "\<not> visited_x st ! j" "xa = (visited_x st)[j := True]"
    by (auto simp: py_get_eq_Inr py_set_eq_Inr)
  from filter_Not_mark[OF py_index_less[OF j(1)] j(2)] j(3)
  show ?case by (simp add: unvisited_def)
next
  case (9 g yn current_is_x v vs st x xa xb xc)
  from 9(5) dfs_restores_dom(1)[OF 9(9), of "snd xb"] 9(6)
  have req: "snd xb = st\<lparr>visited_x := xa, path := path st @ [(''X'', v)]\<rparr>"
    by (cases xb) auto
  from 9(2,3,4) obtain j where j: "py_index (length (visited_x st)) v = Some j"
    "\<not> visited_x st ! j" "xa = (visited_x st)[j := True]"
    by (auto simp: py_get_eq_Inr py_set_eq_Inr)
  from 9(8) j have "xc = visited_x st"
    by (simp add: req py_set_def list_update_False_same)
  then show ?case by (simp add: req unvisited_def)
qed

termination dfs
  by (rule dfs_dfs_loop_total)

lemma dfs_restores:
  "dfs g yn b idx st = Inr (False, st') \<Longrightarrow> st' = st"
  "dfs_loop g yn b vs st = Inr (False, st') \<Longrightarrow> st' = st"
  using dfs_restores_dom dfs_dfs_loop_total by blast+

section \<open>The example graphs\<close>

lemma build_hamiltonian_n3_graph_eq: "build_hamiltonian_n3_graph = Inr hamiltonian_n3_graph"
  by code_simp

lemma build_non_hamiltonian_n3_graph_eq: "build_non_hamiltonian_n3_graph = Inr non_hamiltonian_n3_graph"
  by code_simp

lemma run_hamiltonian_n3_accepted:
  "bind_err (run hamiltonian_n3_graph HamiltonianDPSolver) (\<lambda>r. Inr (accepted (fst r))) = Inr True"
  by code_simp

lemma run_hamiltonian_n3_states:
  "bind_err (run hamiltonian_n3_graph HamiltonianDPSolver) (\<lambda>r. Inr (dict_keys (reachable (snd r))))
   = Inr hamiltonian_n3_states"
  by code_simp

lemma run_hamiltonian_n3_stats:
  "bind_err (run hamiltonian_n3_graph HamiltonianDPSolver) (\<lambda>r. Inr (fst r)) = Inr hamiltonian_n3_stats"
  by code_simp

lemma find_cycle_hamiltonian_n3: "find_cycle hamiltonian_n3_graph = Inr (Some n3_cycle)"
  by code_simp

lemma n3_cycle_hamiltonian: "is_hamiltonian_cycle hamiltonian_n3_graph n3_cycle"
  by code_simp

lemma run_non_hamiltonian_n3_rejected:
  "bind_err (run non_hamiltonian_n3_graph HamiltonianDPSolver) (\<lambda>r. Inr (accepted (fst r))) = Inr False"
  by code_simp

lemma find_cycle_non_hamiltonian_n3: "find_cycle non_hamiltonian_n3_graph = Inr None"
  by code_simp

lemma solver_cleared:
  "e\<lparr> reachable := [], predecessor := [], transitions_per_type := [] \<rparr> = HamiltonianDPSolver"
  by (cases e) (simp add: HamiltonianDPSolver_def)

lemma run_clears: "run g e = run g HamiltonianDPSolver"
  unfolding run_def Let_def solver_cleared ..

lemma bind_err_accepted:
  "bind_err (run g e) (\<lambda>r. Inr (accepted (fst r))) = Inr b
   \<Longrightarrow> \<exists>stats e'. run g e = Inr (stats, e') \<and> accepted stats = b"
  by (cases "run g e") auto

text \<open>
  C5: on the 3-vertex graph with \<open>Y0 = [0,1]\<close>, \<open>Y1 = [1,2]\<close>, \<open>Y2 = [0,0] \<union> [2,2]\<close>, the
  DP engine's \<open>run()\<close> returns \<open>accepted = true\<close> (whatever the engine's dictionaries held
  before), and \<open>find_cycle\<close> returns a cycle of length exactly 6 that alternates \<open>X\<close> and
  \<open>Y\<close> and whose last vertex is adjacent to its first.
\<close>

theorem canonical_n3_accepted_and_cycle:
  "build_hamiltonian_n3_graph = Inr hamiltonian_n3_graph
   \<and> (\<exists>stats e'. run hamiltonian_n3_graph e = Inr (stats, e') \<and> accepted stats = True)
   \<and> (\<exists>cycle. find_cycle hamiltonian_n3_graph = Inr (Some cycle) \<and> length cycle = 6
         \<and> alternates True cycle \<and> adjacent hamiltonian_n3_graph (last cycle) (hd cycle))"
proof (intro conjI)
  show "build_hamiltonian_n3_graph = Inr hamiltonian_n3_graph"
    by (rule build_hamiltonian_n3_graph_eq)
  show "\<exists>stats e'. run hamiltonian_n3_graph e = Inr (stats, e') \<and> accepted stats = True"
    using bind_err_accepted[OF run_hamiltonian_n3_accepted] by (simp add: run_clears[of _ e])
  have "length n3_cycle = 6" by (simp add: n3_cycle_def)
  moreover have "alternates True n3_cycle" "adjacent hamiltonian_n3_graph (last n3_cycle) (hd n3_cycle)"
    using n3_cycle_hamiltonian by (simp_all add: is_hamiltonian_cycle_def n3_cycle_def)
  ultimately show "\<exists>cycle. find_cycle hamiltonian_n3_graph = Inr (Some cycle) \<and> length cycle = 6
         \<and> alternates True cycle \<and> adjacent hamiltonian_n3_graph (last cycle) (hd cycle)"
    using find_cycle_hamiltonian_n3 by blast
qed

theorem canonical_n3_accepted_and_cycle_witness:
  "build_hamiltonian_n3_graph = Inr hamiltonian_n3_graph
   \<and> (\<exists>stats e'. run hamiltonian_n3_graph HamiltonianDPSolver = Inr (stats, e') \<and> accepted stats = True)
   \<and> (\<exists>cycle. find_cycle hamiltonian_n3_graph = Inr (Some cycle) \<and> length cycle = 6
         \<and> alternates True cycle \<and> adjacent hamiltonian_n3_graph (last cycle) (hd cycle))"
  by (rule canonical_n3_accepted_and_cycle[of HamiltonianDPSolver])

text \<open>
  C6: on the 3-vertex graph with \<open>Y0 = [0,1]\<close>, \<open>Y1 = [1,2]\<close> and \<open>Y2 = [0,0]\<close> with an
  empty second interval (the graph of C5 without the edge \<open>X2\<close>--\<open>Y2\<close>), \<open>run()\<close> returns
  \<open>accepted = false\<close> and \<open>find_cycle\<close> returns the "not found" result \<open>None\<close>.
\<close>

theorem non_hamiltonian_n3_rejected_and_not_found:
  "build_non_hamiltonian_n3_graph = Inr non_hamiltonian_n3_graph
   \<and> edges non_hamiltonian_n3_graph = edges hamiltonian_n3_graph - {(''X'', 2, ''Y'', 2)}
   \<and> (\<exists>stats e'. run non_hamiltonian_n3_graph e = Inr (stats, e') \<and> accepted stats = False)
   \<and> find_cycle non_hamiltonian_n3_graph = Inr None"
proof (intro conjI)
  show "build_non_hamiltonian_n3_graph = Inr non_hamiltonian_n3_graph"
    by (rule build_non_hamiltonian_n3_graph_eq)
  show "edges non_hamiltonian_n3_graph = edges hamiltonian_n3_graph - {(''X'', 2, ''Y'', 2)}"
    by (auto simp: non_hamiltonian_n3_graph_def hamiltonian_n3_graph_def)
  show "\<exists>stats e'. run non_hamiltonian_n3_graph e = Inr (stats, e') \<and> accepted stats = False"
    using bind_err_accepted[OF run_non_hamiltonian_n3_rejected] by (simp add: run_clears[of _ e])
  show "find_cycle non_hamiltonian_n3_graph = Inr None"
    by (rule find_cycle_non_hamiltonian_n3)
qed

theorem non_hamiltonian_n3_rejected_and_not_found_witness:
  "build_non_hamiltonian_n3_graph = Inr non_hamiltonian_n3_graph
   \<and> edges non_hamiltonian_n3_graph = edges hamiltonian_n3_graph - {(''X'', 2, ''Y'', 2)}
   \<and> (\<exists>stats e'. run non_hamiltonian_n3_graph HamiltonianDPSolver = Inr (stats, e') \<and> accepted stats = False)
   \<and> find_cycle non_hamiltonian_n3_graph = Inr None"
  by (rule non_hamiltonian_n3_rejected_and_not_found[of HamiltonianDPSolver])

section \<open>The transitions of a state\<close>

lemma collect_mem:
  "collect body xs = Inr rs \<Longrightarrow> t \<in> set rs \<longleftrightarrow> (\<exists>x\<in>set xs. \<exists>r. body x = Inr r \<and> t \<in> set r)"
proof (induction xs arbitrary: rs)
  case Nil
  then show ?case by simp
next
  case (Cons x xs)
  then show ?case by (auto simp: bind_err_eq_Inr)
qed

lemma collect_total:
  "(\<And>x. x \<in> set xs \<Longrightarrow> \<exists>r. body x = Inr r) \<Longrightarrow> \<exists>rs. collect body xs = Inr rs"
proof (induction xs)
  case Nil
  then show ?case by simp
next
  case (Cons x xs)
  then obtain r rs where "body x = Inr r" "collect body xs = Inr rs"
    by (metis list.set_intros)
  then show ?case by simp
qed

lemma collect_all_Inr:
  "collect body xs = Inr rs \<Longrightarrow> x \<in> set xs \<Longrightarrow> \<exists>r. body x = Inr r"
  by (induction xs arbitrary: rs) (auto simp: bind_err_eq_Inr)

lemma set_py_set_of [simp]: "set (py_set_of xs) = set xs"
  by (simp add: py_set_of_def)

lemma length_py_set_of: "length (py_set_of xs) \<le> length xs"
  by (simp add: py_set_of_def length_remdups_leq)

lemma set_set_and [simp]: "set (set_and A B) = set A \<inter> set B"
  by (auto simp: set_and_def)

lemma set_set_minus [simp]: "set (set_minus A B) = set A - set B"
  by (auto simp: set_minus_def)

lemma set_set_or [simp]: "set (set_or A B) = set A \<union> set B"
  by (simp add: set_or_def)

text \<open>The transitions of a state, rule by rule.\<close>

lemma enumerate_transitions_cases:
  assumes "enumerate_transitions g s = Inr ts" and "t \<in> set ts"
  obtains
    (T1) yclose where "loose_flag s = 1" "yclose \<in> set (open_set s)"
      "yclose \<in> set (fst (snd (snd (classify_events_at g (dp_k s)))))"
      "t = (\<lparr> dp_k = dp_k s + 1, open_set = sort (filter (\<lambda>y. y \<noteq> yclose) (open_set s)), loose_flag = 0 \<rparr>,
            ''T1'', [(''X'', dp_k s, ''Y'', yclose)])"
  | (T2) yopen r where "loose_flag s = 1" "yopen \<notin> set (open_set s)"
      "yopen \<in> set (fst (classify_events_at g (dp_k s))) \<union> set (fst (snd (classify_events_at g (dp_k s))))"
      "t2_body g (dp_k s) (open_set s) yopen = Inr r" "t \<in> set r"
  | (T3) yclose yopen r where "loose_flag s = 0" "yclose \<in> set (open_set s)"
      "yclose \<in> set (fst (snd (snd (classify_events_at g (dp_k s)))))"
      "yopen \<notin> set (open_set s)" "yopen \<in> set (fst (snd (classify_events_at g (dp_k s))))"
      "t3_body g (dp_k s) (open_set s) yclose yopen = Inr r" "t \<in> set r"
  | (T4) y nb r where "loose_flag s = 1" "neighbors_of_x g (dp_k s) = Inr nb" "y \<in> set nb"
      "t4_body g (dp_k s) (open_set s) y = Inr r" "t \<in> set r"
  | (T5) "t \<in> set (t5_results (dp_k s) (open_set s) (loose_flag s) (classify_events_at g (dp_k s)))"
proof -
  obtain E1 E2 E3 E4 where ev: "classify_events_at g (dp_k s) = (E1, E2, E3, E4)"
    by (cases "classify_events_at g (dp_k s)") auto
  from assms obtain nb r1 r2 r3 r4 where
    nb: "neighbors_of_x g (dp_k s) = Inr nb" and
    r1: "(if loose_flag s = 1 then collect (t1_body (dp_k s) (open_set s)) (set_and (py_set_of (open_set s)) E3) else Inr []) = Inr r1" and
    r2: "(if loose_flag s = 1 then collect (t2_body g (dp_k s) (open_set s)) (set_minus (set_or E1 E2) (py_set_of (open_set s))) else Inr []) = Inr r2" and
    r3: "(if loose_flag s = 0 then collect (\<lambda>yclose. collect (t3_body g (dp_k s) (open_set s) yclose) (set_minus E2 (py_set_of (open_set s)))) (set_and (py_set_of (open_set s)) E3) else Inr []) = Inr r3" and
    r4: "(if loose_flag s = 1 then collect (t4_body g (dp_k s) (open_set s)) nb else Inr []) = Inr r4" and
    ts: "ts = r1 @ r2 @ r3 @ r4 @ t5_results (dp_k s) (open_set s) (loose_flag s) (E1, E2, E3, E4)"
    by (auto simp: enumerate_transitions_def Let_def ev bind_err_eq_Inr split: if_splits)
  from ts assms(2) consider "t \<in> set r1" | "t \<in> set r2" | "t \<in> set r3" | "t \<in> set r4"
    | "t \<in> set (t5_results (dp_k s) (open_set s) (loose_flag s) (E1, E2, E3, E4))"
    by auto
  then show thesis
  proof cases
    case 1
    with r1 have L: "loose_flag s = 1" by (auto split: if_splits)
    with r1 1 obtain yclose r where "yclose \<in> set (open_set s)" "yclose \<in> set E3"
      "t1_body (dp_k s) (open_set s) yclose = Inr r" "t \<in> set r"
      by (auto simp: collect_mem)
    with L show thesis by (intro T1[of yclose]) (auto simp: ev t1_body_def)
  next
    case 2
    with r2 have L: "loose_flag s = 1" by (auto split: if_splits)
    with r2 2 obtain yopen r where "yopen \<notin> set (open_set s)" "yopen \<in> set E1 \<union> set E2"
      "t2_body g (dp_k s) (open_set s) yopen = Inr r" "t \<in> set r"
      by (auto simp: collect_mem)
    with L show thesis by (intro T2[of yopen r]) (auto simp: ev)
  next
    case 3
    with r3 have L: "loose_flag s = 0" by (auto split: if_splits)
    with r3 3 obtain yclose rr where yc: "yclose \<in> set (open_set s)" "yclose \<in> set E3"
      "collect (t3_body g (dp_k s) (open_set s) yclose) (set_minus E2 (py_set_of (open_set s))) = Inr rr" "t \<in> set rr"
      by (auto simp: collect_mem)
    then obtain yopen r where "yopen \<notin> set (open_set s)" "yopen \<in> set E2"
      "t3_body g (dp_k s) (open_set s) yclose yopen = Inr r" "t \<in> set r"
      by (auto simp: collect_mem)
    with L yc show thesis by (intro T3[of yclose yopen r]) (auto simp: ev)
  next
    case 4
    with r4 have L: "loose_flag s = 1" by (auto split: if_splits)
    with r4 4 obtain y r where "y \<in> set nb" "t4_body g (dp_k s) (open_set s) y = Inr r" "t \<in> set r"
      by (auto simp: collect_mem)
    with L nb show thesis by (intro T4[of nb y r]) auto
  next
    case 5
    then show thesis by (intro T5) (simp add: ev)
  qed
qed

lemma enumerate_transitions_below_n:
  "enumerate_transitions g s = Inr ts \<Longrightarrow> t \<in> set ts \<Longrightarrow> dp_k s < g_n g"
  by (auto simp: enumerate_transitions_def Let_def split: if_splits)

lemma check_stack_order_True:
  "check_stack_order g y1 y2 = Inr True \<Longrightarrow>
   \<exists>yv1 yv2. py_get (y_vertices g) y1 = Inr yv1 \<and> py_get (y_vertices g) y2 = Inr yv2
     \<and> \<not> is_empty (second yv1) \<and> \<not> is_empty (first yv2)
     \<and> the (iv_l (second yv1)) > the (iv_r (first yv2))"
  by (auto simp: check_stack_order_def bind_err_eq_Inr split: if_splits)

lemma length_py_set_of_pair: "length (py_set_of [a, b]) \<le> 2"
  using length_py_set_of[of "[a, b]"] by simp

lemma length_0_if: "\<not> 2 \<le> length xs \<Longrightarrow> length xs \<noteq> Suc 0 \<Longrightarrow> xs = []"
  by (cases "length xs") auto

lemma length_0_if': "\<not> Suc 0 < length xs \<Longrightarrow> length xs \<noteq> Suc 0 \<Longrightarrow> xs = []"
  by (cases "length xs") auto

lemma t2_body_shape:
  assumes "t2_body g k Os yopen = Inr r" and "t \<in> set r"
  shows "dp_k (fst t) = k + 1 \<and> loose_flag (fst t) = 0 \<and> length (open_set (fst t)) \<le> 2
         \<and> fst (snd t) = ''T2'' \<and> snd (snd t) = [(''X'', k, ''Y'', yopen)]
         \<and> (length Os = 0 \<and> open_set (fst t) = [yopen]
            \<or> length Os = 1 \<and> check_stack_order g (Os ! 0) yopen = Inr True
               \<and> open_set (fst t) = py_set_of [Os ! 0, yopen])"
  using assms length_py_set_of_pair[of "Os ! 0" yopen]
  by (auto simp: t2_body_def bind_err_eq_Inr py_set_of_def sorted_sort_id
           split: if_splits option.splits dest: length_0_if)

lemma t3_body_shape:
  assumes "t3_body g k Os yclose yopen = Inr r" and "t \<in> set r"
  shows "dp_k (fst t) = k + 1 \<and> loose_flag (fst t) = 0 \<and> length (open_set (fst t)) \<le> 2
         \<and> fst (snd t) = ''T3'' \<and> snd (snd t) = [(''X'', k, ''Y'', yclose), (''X'', k, ''Y'', yopen)]
         \<and> (length (filter (\<lambda>y. y \<noteq> yclose) Os) = 0 \<and> open_set (fst t) = [yopen]
            \<or> length (filter (\<lambda>y. y \<noteq> yclose) Os) = 1
               \<and> check_stack_order g (filter (\<lambda>y. y \<noteq> yclose) Os ! 0) yopen = Inr True
               \<and> open_set (fst t) = py_set_of [filter (\<lambda>y. y \<noteq> yclose) Os ! 0, yopen])"
  using assms length_py_set_of_pair[of "filter (\<lambda>y. y \<noteq> yclose) Os ! 0" yopen]
  by (auto simp: t3_body_def Let_def bind_err_eq_Inr py_set_of_def sorted_sort_id
           split: if_splits option.splits dest: length_0_if')

lemma t4_body_shape:
  assumes "t4_body g k Os y = Inr r" and "t \<in> set r"
  shows "t = (\<lparr> dp_k = k + 1, open_set = sort Os, loose_flag = 1 \<rparr>, ''T4'', [(''X'', k, ''Y'', y)])
         \<and> is_convex_at g y k = Inr True"
  using assms by (auto simp: t4_body_def bind_err_eq_Inr split: if_splits)

lemma t5_results_shape:
  "t \<in> set (t5_results k Os L (E1, E2, E3, E4)) \<longleftrightarrow>
     E1 = [] \<and> E2 = [] \<and> E3 = [] \<and> E4 = []
     \<and> t = (\<lparr> dp_k = k + 1, open_set = sort Os, loose_flag = L \<rparr>, ''T5'', [])"
  by (auto simp: t5_results_def)

lemma transition_shape:
  assumes "enumerate_transitions g s = Inr ts" and "t \<in> set ts"
  shows "dp_k (fst t) = dp_k s + 1 \<and> dp_k s < g_n g
         \<and> (length (open_set (fst t)) \<le> 2 \<or> length (open_set (fst t)) \<le> length (open_set s))
         \<and> (loose_flag (fst t) = 0 \<or> loose_flag (fst t) = 1 \<or> loose_flag (fst t) = loose_flag s)"
  using assms
proof (cases rule: enumerate_transitions_cases)
  case (T1 yclose)
  with enumerate_transitions_below_n[OF assms] show ?thesis by simp
next
  case (T2 yopen r)
  with enumerate_transitions_below_n[OF assms] t2_body_shape[OF T2(4,5)] show ?thesis by simp
next
  case (T3 yclose yopen r)
  with enumerate_transitions_below_n[OF assms] t3_body_shape[OF T3(6,7)] show ?thesis by simp
next
  case (T4 y nb r)
  with enumerate_transitions_below_n[OF assms] t4_body_shape[OF T4(4,5)] show ?thesis by simp
next
  case T5
  with enumerate_transitions_below_n[OF assms] show ?thesis
    by (cases "classify_events_at g (dp_k s)") (auto simp: t5_results_shape)
qed

text \<open>
  C4: a state \<open>(k, O, L)\<close> with \<open>0 \<le> k \<le> n\<close>, \<open>|O| \<le> 2\<close> and \<open>L \<in> {0,1}\<close> has only
  successors \<open>(k', O', L')\<close> with \<open>0 \<le> k' \<le> n\<close>, \<open>|O'| \<le> 2\<close> and \<open>L' \<in> {0,1}\<close>, whichever of
  the rules T1--T5 produced them; in particular no layer index leaves \<open>[0, n]\<close>.
\<close>

theorem transitions_keep_state_ok:
  assumes "state_ok (g_n g) s"
    and "enumerate_transitions g s = Inr ts"
    and "(s', ttype, es) \<in> set ts"
  shows "state_ok (g_n g) s'"
  using transition_shape[OF assms(2,3)] assms(1) by (auto simp: state_ok_def)

lemma enumerate_n3_layer1:
  "enumerate_transitions hamiltonian_n3_graph \<lparr> dp_k = 1, open_set = [2], loose_flag = 1 \<rparr>
   = Inr [(\<lparr> dp_k = 2, open_set = [0, 2], loose_flag = 0 \<rparr>, ''T2'', [(''X'', 1, ''Y'', 0)]),
          (\<lparr> dp_k = 2, open_set = [2], loose_flag = 1 \<rparr>, ''T4'', [(''X'', 1, ''Y'', 0)])]"
  by code_simp

theorem transitions_keep_state_ok_witness:
  "state_ok (g_n hamiltonian_n3_graph) \<lparr> dp_k = 1, open_set = [2], loose_flag = 1 \<rparr>
   \<and> enumerate_transitions hamiltonian_n3_graph \<lparr> dp_k = 1, open_set = [2], loose_flag = 1 \<rparr>
       = Inr [(\<lparr> dp_k = 2, open_set = [0, 2], loose_flag = 0 \<rparr>, ''T2'', [(''X'', 1, ''Y'', 0)]),
              (\<lparr> dp_k = 2, open_set = [2], loose_flag = 1 \<rparr>, ''T4'', [(''X'', 1, ''Y'', 0)])]
   \<and> state_ok (g_n hamiltonian_n3_graph) \<lparr> dp_k = 2, open_set = [0, 2], loose_flag = 0 \<rparr>"
proof -
  have a: "state_ok (g_n hamiltonian_n3_graph) \<lparr> dp_k = 1, open_set = [2], loose_flag = 1 \<rparr>"
    by (simp add: state_ok_def hamiltonian_n3_graph_def)
  have c: "(\<lparr> dp_k = 2, open_set = [0, 2], loose_flag = 0 \<rparr>, ''T2'', [(''X'', 1, ''Y'', 0)])
           \<in> set [(\<lparr> dp_k = 2, open_set = [0, 2], loose_flag = 0 \<rparr>, ''T2'', [(''X'', 1, ''Y'', 0)]),
                   (\<lparr> dp_k = 2, open_set = [2], loose_flag = 1 \<rparr>, ''T4'', [(''X'', 1, ''Y'', 0)])]"
    by simp
  from transitions_keep_state_ok[OF a enumerate_n3_layer1 c] a enumerate_n3_layer1
  show ?thesis by blast
qed

text \<open>
  C10: \<open>check_stack_order(graph, y1, y2)\<close> returns false whenever \<open>y1\<close>'s second interval
  or \<open>y2\<close>'s first interval is empty; so a successor by T2 or T3 whose open set has two
  elements keeps an already-open vertex whose second interval is not empty.
\<close>

theorem stack_order_needs_second_interval:
  "(py_get (y_vertices g) y1 = Inr yv1 \<and> py_get (y_vertices g) y2 = Inr yv2
      \<and> (is_empty (second yv1) \<or> is_empty (first yv2))
      \<longrightarrow> check_stack_order g y1 y2 = Inr False)
   \<and> (enumerate_transitions g s = Inr ts \<and> (s', ttype, es) \<in> set ts
      \<and> (ttype = ''T2'' \<or> ttype = ''T3'') \<and> length (open_set s') = 2
      \<longrightarrow> (\<exists>y_old yv. y_old \<in> set (open_set s) \<and> y_old \<in> set (open_set s')
             \<and> py_get (y_vertices g) y_old = Inr yv \<and> \<not> is_empty (second yv)))"
proof (intro conjI impI)
  assume "py_get (y_vertices g) y1 = Inr yv1 \<and> py_get (y_vertices g) y2 = Inr yv2
      \<and> (is_empty (second yv1) \<or> is_empty (first yv2))"
  then show "check_stack_order g y1 y2 = Inr False"
    by (auto simp: check_stack_order_def)
next
  assume h: "enumerate_transitions g s = Inr ts \<and> (s', ttype, es) \<in> set ts
      \<and> (ttype = ''T2'' \<or> ttype = ''T3'') \<and> length (open_set s') = 2"
  then have e: "enumerate_transitions g s = Inr ts" and m: "(s', ttype, es) \<in> set ts"
    and tt: "ttype = ''T2'' \<or> ttype = ''T3''" and two: "length (open_set s') = 2"
    by simp_all
  let ?goal = "\<exists>y_old yv. y_old \<in> set (open_set s) \<and> y_old \<in> set (open_set s')
             \<and> py_get (y_vertices g) y_old = Inr yv \<and> \<not> is_empty (second yv)"
  from e m show ?goal
  proof (cases rule: enumerate_transitions_cases)
    case (T1 yclose)
    with tt show ?thesis by simp
  next
    case (T2 yopen r)
    from t2_body_shape[OF T2(4,5)] two
    have c: "length (open_set s) = 1" "check_stack_order g (open_set s ! 0) yopen = Inr True"
      "open_set s' = py_set_of [open_set s ! 0, yopen]"
      by auto
    from c(1) have "open_set s ! 0 \<in> set (open_set s)" by simp
    moreover from c(3) have "open_set s ! 0 \<in> set (open_set s')" by simp
    ultimately show ?thesis using check_stack_order_True[OF c(2)] by blast
  next
    case (T3 yclose yopen r)
    let ?B = "filter (\<lambda>y. y \<noteq> yclose) (open_set s)"
    from t3_body_shape[OF T3(6,7)] two
    have c: "length ?B = 1" "check_stack_order g (?B ! 0) yopen = Inr True"
      "open_set s' = py_set_of [?B ! 0, yopen]"
      by auto
    from c(1) have "0 < length ?B" by simp
    then have "?B ! 0 \<in> set ?B" by (rule nth_mem)
    then have "?B ! 0 \<in> set (open_set s)"
      using filter_is_subset[of "\<lambda>y. y \<noteq> yclose" "open_set s"] by blast
    moreover from c(3) have "?B ! 0 \<in> set (open_set s')" by simp
    ultimately show ?thesis using check_stack_order_True[OF c(2)] by blast
  next
    case (T4 y nb r)
    from t4_body_shape[OF T4(4,5)] tt show ?thesis by simp
  next
    case T5
    with tt show ?thesis
      by (cases "classify_events_at g (dp_k s)") (auto simp: t5_results_shape)
  qed
qed

theorem stack_order_needs_second_interval_witness:
  "py_get (y_vertices hamiltonian_n3_graph) 0 = Inr (hamiltonian_n3_y_vertices ! 0)
   \<and> py_get (y_vertices hamiltonian_n3_graph) 1 = Inr (hamiltonian_n3_y_vertices ! 1)
   \<and> is_empty (second (hamiltonian_n3_y_vertices ! 0))
   \<and> check_stack_order hamiltonian_n3_graph 0 1 = Inr False
   \<and> enumerate_transitions hamiltonian_n3_graph \<lparr> dp_k = 1, open_set = [2], loose_flag = 1 \<rparr>
       = Inr [(\<lparr> dp_k = 2, open_set = [0, 2], loose_flag = 0 \<rparr>, ''T2'', [(''X'', 1, ''Y'', 0)]),
              (\<lparr> dp_k = 2, open_set = [2], loose_flag = 1 \<rparr>, ''T4'', [(''X'', 1, ''Y'', 0)])]
   \<and> (\<exists>y_old yv. y_old \<in> set [2] \<and> y_old \<in> set [0, 2]
          \<and> py_get (y_vertices hamiltonian_n3_graph) y_old = Inr yv \<and> \<not> is_empty (second yv))"
proof -
  have a: "py_get (y_vertices hamiltonian_n3_graph) 0 = Inr (hamiltonian_n3_y_vertices ! 0)"
    "py_get (y_vertices hamiltonian_n3_graph) 1 = Inr (hamiltonian_n3_y_vertices ! 1)"
    "is_empty (second (hamiltonian_n3_y_vertices ! 0))"
    by (simp_all add: hamiltonian_n3_graph_def hamiltonian_n3_y_vertices_def py_get_def
          py_index_def is_empty_def)
  have c: "(\<lparr> dp_k = 2, open_set = [0, 2], loose_flag = 0 \<rparr>, ''T2'', [(''X'', 1, ''Y'', 0)])
           \<in> set [(\<lparr> dp_k = 2, open_set = [0, 2], loose_flag = 0 \<rparr>, ''T2'', [(''X'', 1, ''Y'', 0)]),
                   (\<lparr> dp_k = 2, open_set = [2], loose_flag = 1 \<rparr>, ''T4'', [(''X'', 1, ''Y'', 0)])]"
    by simp
  let ?s = "\<lparr> dp_k = 1, open_set = [2], loose_flag = 1 \<rparr>"
  let ?s' = "\<lparr> dp_k = 2, open_set = [0, 2], loose_flag = 0 \<rparr>"
  let ?ts = "[(?s', ''T2'', [(''X'', 1, ''Y'', 0 :: int)]),
              (\<lparr> dp_k = 2, open_set = [2], loose_flag = 1 \<rparr>, ''T4'', [(''X'', 1, ''Y'', 0)])]"
  note inst = stack_order_needs_second_interval[of hamiltonian_n3_graph 0 "hamiltonian_n3_y_vertices ! 0"
      1 "hamiltonian_n3_y_vertices ! 1" ?s ?ts ?s' "''T2''" "[(''X'', 1, ''Y'', 0)]"]
  from inst a have "check_stack_order hamiltonian_n3_graph 0 1 = Inr False" by blast
  moreover have "length (open_set ?s') = 2" by simp
  with inst enumerate_n3_layer1 c
  have "\<exists>y_old yv. y_old \<in> set (open_set ?s) \<and> y_old \<in> set (open_set ?s')
          \<and> py_get (y_vertices hamiltonian_n3_graph) y_old = Inr yv \<and> \<not> is_empty (second yv)"
    by blast
  then have "\<exists>y_old yv. y_old \<in> set [2] \<and> y_old \<in> set [0, 2]
          \<and> py_get (y_vertices hamiltonian_n3_graph) y_old = Inr yv \<and> \<not> is_empty (second yv)"
    by simp
  ultimately show ?thesis using a enumerate_n3_layer1 by blast
qed

section \<open>Graph construction\<close>

lemma check_y_vertices_Inr:
  "check_y_vertices n ys = Inr u \<longleftrightarrow>
     (\<forall>yv\<in>set ys. bounds_ok n (first yv) \<and> bounds_ok n (second yv) \<and> order_ok yv)"
  by (induction ys) auto

lemma check_y_vertices_Inl:
  "check_y_vertices n ys = Inl err \<longleftrightarrow> err = AssertionError \<and>
     (\<exists>yv\<in>set ys. \<not> bounds_ok n (first yv) \<or> \<not> bounds_ok n (second yv) \<or> \<not> order_ok yv)"
  by (induction ys) auto

lemma py_enumerate_snoc:
  "py_enumerate (xs @ [x]) = py_enumerate xs @ [(int (length xs), x)]"
  by (simp add: py_enumerate_def)

lemma length_fold_add_point [simp]:
  "length (fst (fold (add_point y) js acc)) = length (fst acc)"
  by (induction js arbitrary: acc) (simp_all add: add_point_def)

lemma nth_fold_add_point:
  assumes "distinct js" and "\<forall>i\<in>set js. 0 \<le> i \<and> nat i < length (fst acc)" and "j < length (fst acc)"
  shows "fst (fold (add_point y) js acc) ! j = fst acc ! j @ (if int j \<in> set js then [y] else [])"
  using assms
proof (induction js arbitrary: acc)
  case Nil
  then show ?case by simp
next
  case (Cons i js)
  let ?acc = "add_point y i acc"
  have len: "length (fst ?acc) = length (fst acc)" by (simp add: add_point_def)
  have here: "fst ?acc ! j = fst acc ! j @ (if int j = i then [y] else [])"
    using Cons.prems by (auto simp: add_point_def nth_list_update)
  have "fst (fold (add_point y) js ?acc) ! j = fst ?acc ! j @ (if int j \<in> set js then [y] else [])"
    using Cons.prems by (intro Cons.IH) (auto simp: len)
  with here Cons.prems(1) show ?case by auto
qed

lemma snd_fold_add_point:
  "snd (fold (add_point y) js acc) = snd acc \<union> {(''X'', i, ''Y'', y) | i. i \<in> set js}"
  by (induction js arbitrary: acc) (auto simp: add_point_def)

lemma length_add_interval [simp]: "length (fst (add_interval y it acc)) = length (fst acc)"
  by (simp add: add_interval_def)

lemma nth_add_interval:
  assumes "bounds_ok n it" and "nat n = length (fst acc)" and "j < length (fst acc)"
  shows "fst (add_interval y it acc) ! j = fst acc ! j @ (if iv_contains it (int j) then [y] else [])"
proof (cases "is_empty it")
  case True
  then show ?thesis by (simp add: add_interval_def iv_contains_def)
next
  case False
  with assms(1) have b: "0 \<le> the (iv_l it)" "the (iv_r it) < n" by (auto simp: bounds_ok_def)
  have "\<forall>i\<in>set [the (iv_l it)..the (iv_r it)]. 0 \<le> i \<and> nat i < length (fst acc)"
    using b assms(2) by auto
  from nth_fold_add_point[OF distinct_upto this assms(3)] False
  show ?thesis by (simp add: add_interval_def iv_contains_def)
qed

lemma snd_add_interval:
  "snd (add_interval y it acc) = snd acc \<union> {(''X'', i, ''Y'', y) | i. iv_contains it i}"
  by (auto simp: add_interval_def snd_fold_add_point iv_contains_def)

lemma intervals_disjoint:
  "order_ok yv \<Longrightarrow> bounds_ok n (first yv) \<Longrightarrow> iv_contains (first yv) i \<Longrightarrow> \<not> iv_contains (second yv) i"
  by (auto simp: order_ok_def bounds_ok_def iv_contains_def split: if_splits)

lemma length_add_y_vertex [simp]: "length (fst (add_y_vertex p acc)) = length (fst acc)"
  by (simp add: add_y_vertex_def)

lemma nth_add_y_vertex:
  assumes "bounds_ok n (first yv)" "bounds_ok n (second yv)" "order_ok yv"
    and "nat n = length (fst acc)" and "j < length (fst acc)"
  shows "fst (add_y_vertex (y, yv) acc) ! j = fst acc ! j @ (if covers yv (int j) then [y] else [])"
proof -
  have "fst (add_y_vertex (y, yv) acc) ! j
        = (fst acc ! j @ (if iv_contains (first yv) (int j) then [y] else []))
          @ (if iv_contains (second yv) (int j) then [y] else [])"
    using assms
    by (simp add: add_y_vertex_def nth_add_interval[where n = n])
  with intervals_disjoint[OF assms(3,1), of "int j"] show ?thesis
    by (auto simp: covers_def)
qed

lemma snd_add_y_vertex:
  "snd (add_y_vertex (y, yv) acc) = snd acc \<union> {(''X'', i, ''Y'', y) | i. covers yv i}"
  by (auto simp: add_y_vertex_def snd_add_interval covers_def)

lemma fold_add_y_vertex:
  assumes "y_vertices_ok n ys"
  shows "length (fst (fold add_y_vertex (py_enumerate ys) (replicate (nat n) [], {}))) = nat n
         \<and> (\<forall>j<nat n. fst (fold add_y_vertex (py_enumerate ys) (replicate (nat n) [], {})) ! j
                       = filter (\<lambda>y. covers (ys ! nat y) (int j)) (map int [0..<length ys]))
         \<and> snd (fold add_y_vertex (py_enumerate ys) (replicate (nat n) [], {}))
             = {(''X'', i, ''Y'', y) | i y. 0 \<le> y \<and> y < int (length ys) \<and> covers (ys ! nat y) i}"
  using assms
proof (induction ys rule: rev_induct)
  case Nil
  then show ?case by (simp add: py_enumerate_def)
next
  case (snoc yv ys)
  let ?acc = "fold add_y_vertex (py_enumerate ys) (replicate (nat n) [], {})"
  from snoc.prems have ok: "y_vertices_ok n ys" and
    yv: "bounds_ok n (first yv)" "bounds_ok n (second yv)" "order_ok yv"
    by (auto simp: y_vertices_ok_def)
  note IH = snoc.IH[OF ok]
  have len: "length (fst ?acc) = nat n" using IH by simp
  have old: "\<And>y. y \<in> set (map int [0..<length ys]) \<Longrightarrow> (ys @ [yv]) ! nat y = ys ! nat y"
    by (auto simp: nth_append)
  have 1: "length (fst (fold add_y_vertex (py_enumerate (ys @ [yv])) (replicate (nat n) [], {}))) = nat n"
    by (simp add: py_enumerate_snoc len)
  have 2: "fst (fold add_y_vertex (py_enumerate (ys @ [yv])) (replicate (nat n) [], {})) ! j
           = filter (\<lambda>y. covers ((ys @ [yv]) ! nat y) (int j)) (map int [0..<length (ys @ [yv])])"
    if "j < nat n" for j
  proof -
    have f: "filter (\<lambda>y. covers ((ys @ [yv]) ! nat y) (int j)) (map int [0..<length ys])
             = filter (\<lambda>y. covers (ys ! nat y) (int j)) (map int [0..<length ys])"
      by (rule filter_cong) (simp_all add: old)
    from that len have "fst (add_y_vertex (int (length ys), yv) ?acc) ! j
          = fst ?acc ! j @ (if covers yv (int j) then [int (length ys)] else [])"
      by (intro nth_add_y_vertex[OF yv]) simp_all
    with IH that f show ?thesis
      by (simp add: py_enumerate_snoc)
  qed
  have 3: "snd (fold add_y_vertex (py_enumerate (ys @ [yv])) (replicate (nat n) [], {}))
           = {(''X'', i, ''Y'', y) | i y. 0 \<le> y \<and> y < int (length (ys @ [yv])) \<and> covers ((ys @ [yv]) ! nat y) i}"
  proof -
    have "{(''X'', i, ''Y'', y) | i y. 0 \<le> y \<and> y < int (length (ys @ [yv])) \<and> covers ((ys @ [yv]) ! nat y) i}
          = {(''X'', i, ''Y'', y) | i y. 0 \<le> y \<and> y < int (length ys) \<and> covers (ys ! nat y) i}
            \<union> {(''X'', i, ''Y'', int (length ys)) | i. covers yv i}"
      (is "?L = ?A \<union> ?B")
    proof (intro set_eqI iffI)
      fix e assume "e \<in> ?L"
      then obtain i y where e: "e = (''X'', i, ''Y'', y)" "0 \<le> y" "y < int (length ys) + 1"
        "covers ((ys @ [yv]) ! nat y) i" by auto
      show "e \<in> ?A \<union> ?B"
      proof (cases "y < int (length ys)")
        case True
        with e have "covers (ys ! nat y) i" by (simp add: nth_append nat_less_iff)
        with e True show ?thesis by auto
      next
        case False
        with e have "y = int (length ys)" by simp
        with e show ?thesis by (auto simp: nth_append)
      qed
    next
      fix e assume "e \<in> ?A \<union> ?B"
      then show "e \<in> ?L"
      proof
        assume "e \<in> ?A"
        then obtain i y where e: "e = (''X'', i, ''Y'', y)" "0 \<le> y" "y < int (length ys)"
          "covers (ys ! nat y) i" by auto
        then have "covers ((ys @ [yv]) ! nat y) i" by (simp add: nth_append nat_less_iff)
        with e show ?thesis by auto
      next
        assume "e \<in> ?B"
        then obtain i where e: "e = (''X'', i, ''Y'', int (length ys))" "covers yv i" by auto
        have "(ys @ [yv]) ! nat (int (length ys)) = yv" by simp
        with e have "covers ((ys @ [yv]) ! nat (int (length ys))) i" by simp
        with e(1) show ?thesis by force
      qed
    qed
    with IH show ?thesis by (simp add: py_enumerate_snoc snd_add_y_vertex)
  qed
  from 1 2 3 show ?case by blast
qed

lemma violated_iff:
  "structural_invariant_violated n ys \<longleftrightarrow> int (length ys) \<noteq> n \<or> \<not> y_vertices_ok n ys"
  by (auto simp: structural_invariant_violated_def y_vertices_ok_def bounds_ok_def order_ok_def)

lemma Construct_Inl:
  "Construct n ys = Inl err \<longleftrightarrow> err = AssertionError \<and> (int (length ys) \<noteq> n \<or> \<not> y_vertices_ok n ys)"
proof (cases "check_y_vertices n ys")
  case (Inl a)
  then show ?thesis
    using check_y_vertices_Inl[of n ys a] by (auto simp: Construct_def y_vertices_ok_def)
next
  case (Inr b)
  then show ?thesis
    using check_y_vertices_Inr[of n ys b] by (auto simp: Construct_def y_vertices_ok_def)
qed

lemma Construct_Inr:
  assumes "Construct n ys = Inr g"
  shows "int (length ys) = n" and "y_vertices_ok n ys" and "fully_built n ys g"
proof -
  from assms show n: "int (length ys) = n" by (auto simp: Construct_def split: if_splits)
  from assms Construct_Inl[of n ys] show ok: "y_vertices_ok n ys"
    by (metis Inl_Inr_False sum.exhaust_sel sum.collapse(1))
  from assms n have g: "g = \<lparr> g_n = n, y_vertices = ys,
      neighbors_x = fst (build_adjacency n ys), edges = snd (build_adjacency n ys) \<rparr>"
    by (auto simp: Construct_def bind_err_eq_Inr split: if_splits)
  note f = fold_add_y_vertex[OF ok]
  have "\<And>i. 0 \<le> i \<Longrightarrow> i < n \<Longrightarrow> fst (build_adjacency n ys) ! nat i
        = filter (\<lambda>y. covers (ys ! nat y) i) (map int [0..<length ys])"
  proof -
    fix i :: int assume "0 \<le> i" "i < n"
    then have "nat i < nat n" by simp
    with f have "fst (build_adjacency n ys) ! nat i
        = filter (\<lambda>y. covers (ys ! nat y) (int (nat i))) (map int [0..<length ys])"
      unfolding build_adjacency_def by blast
    with \<open>0 \<le> i\<close> show "fst (build_adjacency n ys) ! nat i
        = filter (\<lambda>y. covers (ys ! nat y) i) (map int [0..<length ys])" by simp
  qed
  with f n show "fully_built n ys g"
    by (simp add: fully_built_def g build_adjacency_def)
qed

text \<open>
  C7: construction raises (an \<open>AssertionError\<close>, returned to the caller) if and only if the
  arguments violate the structural invariant in one of the three ways; on every other
  input it succeeds, and the graph's adjacency lists and edge set are fully built.
\<close>

theorem construct_raises_iff_invariant_violated:
  "(Construct n ys = Inl AssertionError \<longleftrightarrow> structural_invariant_violated n ys)
   \<and> (\<not> structural_invariant_violated n ys \<longrightarrow> (\<exists>g. Construct n ys = Inr g \<and> fully_built n ys g))"
proof (intro conjI impI)
  show "Construct n ys = Inl AssertionError \<longleftrightarrow> structural_invariant_violated n ys"
    by (simp add: Construct_Inl violated_iff)
next
  assume "\<not> structural_invariant_violated n ys"
  then have "\<And>err. Construct n ys \<noteq> Inl err"
    by (simp add: Construct_Inl violated_iff)
  then obtain g where "Construct n ys = Inr g"
    by (cases "Construct n ys") auto
  with Construct_Inr(3)[OF this] show "\<exists>g. Construct n ys = Inr g \<and> fully_built n ys g"
    by blast
qed

lemma hamiltonian_n3_not_violated: "\<not> structural_invariant_violated 3 hamiltonian_n3_y_vertices"
  by (simp add: structural_invariant_violated_def hamiltonian_n3_y_vertices_def is_empty_def)

lemma empty_list_violated: "structural_invariant_violated 3 []"
  by (simp add: structural_invariant_violated_def)

theorem construct_raises_iff_invariant_violated_witness:
  "structural_invariant_violated 3 [] \<and> Construct 3 [] = Inl AssertionError
   \<and> (\<exists>g. Construct 3 hamiltonian_n3_y_vertices = Inr g \<and> fully_built 3 hamiltonian_n3_y_vertices g)"
  using construct_raises_iff_invariant_violated[of 3 "[]"]
    construct_raises_iff_invariant_violated[of 3 hamiltonian_n3_y_vertices]
    hamiltonian_n3_not_violated empty_list_violated
  by blast

section \<open>Dictionaries\<close>

lemma dict_keys_dict_set:
  "dict_keys (dict_set key v d) = (if key \<in> set (dict_keys d) then dict_keys d else dict_keys d @ [key])"
  by (induction d) (auto simp: dict_keys_def rev_image_eqI)

lemma set_dict_keys_dict_set [simp]:
  "set (dict_keys (dict_set key v d)) = insert key (set (dict_keys d))"
  by (auto simp: dict_keys_dict_set)

lemma map_of_dict_set: "map_of (dict_set key v d) = (map_of d)(key \<mapsto> v)"
  by (induction d) (auto simp: fun_eq_iff)

lemma in_set_dict_set: "p \<in> set (dict_set key v d) \<Longrightarrow> snd p = v \<or> p \<in> set d"
  by (induction d) (auto split: if_splits)

lemma all_true_dict_set: "all_true d \<Longrightarrow> all_true (dict_set key True d)"
  using in_set_dict_set[of _ key True d] by (auto simp: all_true_def)

lemma dict_get_all_true:
  "all_true d \<Longrightarrow> dict_get d key False \<longleftrightarrow> key \<in> set (dict_keys d)"
proof -
  assume a: "all_true d"
  show ?thesis
  proof (cases "map_of d key")
    case None
    then have "key \<notin> fst ` set d" by (simp add: map_of_eq_None_iff)
    with None show ?thesis by (simp add: dict_get_def dict_keys_def)
  next
    case (Some v)
    then have "(key, v) \<in> set d" by (rule map_of_SomeD)
    with a Some show ?thesis by (force simp: dict_get_def dict_keys_def all_true_def)
  qed
qed

section \<open>Constructed graphs\<close>

lemma Construct_n_nonneg: "Construct n ys = Inr g \<Longrightarrow> 0 \<le> g_n g"
  using Construct_Inr(1,3)[of n ys g] by (auto simp: fully_built_def)

lemma Construct_lengths:
  assumes "Construct n ys = Inr g"
  shows "int (length (y_vertices g)) = g_n g" and "int (length (neighbors_x g)) = g_n g"
  using Construct_Inr(1,3)[OF assms] by (auto simp: fully_built_def)

lemma py_index_in_range: "0 \<le> i \<Longrightarrow> i < int len \<Longrightarrow> py_index len i = Some (nat i)"
  by (simp add: py_index_def)

lemma py_get_in_range: "0 \<le> i \<Longrightarrow> i < int (length xs) \<Longrightarrow> py_get xs i = Inr (xs ! nat i)"
  by (simp add: py_get_def py_index_in_range)

lemma Construct_py_get_y:
  "Construct n ys = Inr g \<Longrightarrow> 0 \<le> y \<Longrightarrow> y < g_n g \<Longrightarrow> py_get (y_vertices g) y = Inr (y_vertices g ! nat y)"
  using Construct_lengths(1)[of n ys g] by (simp add: py_get_in_range)

lemma Construct_neighbors_of_x:
  assumes "Construct n ys = Inr g"
  shows "neighbors_of_x g i = Inr (if 0 \<le> i \<and> i < g_n g then neighbors_x g ! nat i else [])"
  using Construct_lengths(2)[OF assms] by (simp add: neighbors_of_x_def py_get_in_range)

lemma Construct_neighbors_in_range:
  assumes "Construct n ys = Inr g" and "neighbors_of_x g i = Inr nb" and "y \<in> set nb"
  shows "0 \<le> y \<and> y < g_n g"
proof -
  note fb = Construct_Inr(3)[OF assms(1)] and len = Construct_Inr(1)[OF assms(1)]
  from assms(2,3) Construct_neighbors_of_x[OF assms(1), of i]
  have i: "0 \<le> i" "i < g_n g" and nb: "nb = neighbors_x g ! nat i"
    by (auto split: if_splits)
  from fb i have "neighbors_x g ! nat i = filter (\<lambda>y. covers (ys ! nat y) i) (map int [0..<length ys])"
    by (simp add: fully_built_def)
  with nb assms(3) len fb show ?thesis by (auto simp: fully_built_def)
qed

lemma set_events_of:
  "set (events_of g P) = {y. 0 \<le> y \<and> y < int (length (y_vertices g)) \<and> P (y_vertices g ! nat y)}"
proof -
  have "set (events_of g P) = {int j | j. j < length (y_vertices g) \<and> P (y_vertices g ! j)}"
    by (force simp: events_of_def py_enumerate_def set_zip image_iff)
  also have "\<dots> = {y. 0 \<le> y \<and> y < int (length (y_vertices g)) \<and> P (y_vertices g ! nat y)}"
  proof (intro set_eqI iffI)
    fix y assume "y \<in> {int j | j. j < length (y_vertices g) \<and> P (y_vertices g ! j)}"
    then show "y \<in> {y. 0 \<le> y \<and> y < int (length (y_vertices g)) \<and> P (y_vertices g ! nat y)}" by auto
  next
    fix y assume "y \<in> {y. 0 \<le> y \<and> y < int (length (y_vertices g)) \<and> P (y_vertices g ! nat y)}"
    then have "y = int (nat y) \<and> nat y < length (y_vertices g) \<and> P (y_vertices g ! nat y)" by auto
    then show "y \<in> {int j | j. j < length (y_vertices g) \<and> P (y_vertices g ! j)}" by blast
  qed
  finally show ?thesis .
qed

lemma events_in_range:
  assumes "Construct n ys = Inr g"
    and "y \<in> set (fst (classify_events_at g i)) \<union> set (fst (snd (classify_events_at g i)))
           \<union> set (fst (snd (snd (classify_events_at g i)))) \<union> set (snd (snd (snd (classify_events_at g i))))"
  shows "0 \<le> y \<and> y < g_n g"
  using assms(2) Construct_lengths(1)[OF assms(1)]
  by (auto simp: classify_events_at_def set_events_of)

section \<open>The states the DP can reach\<close>

lemma sorted_py_set_of [simp]: "sorted (py_set_of xs)"
  by (simp add: py_set_of_def)

lemma transition_open_set:
  assumes "enumerate_transitions g s = Inr ts" and "t \<in> set ts"
  shows "sorted (open_set (fst t))
         \<and> set (open_set (fst t)) \<subseteq> set (open_set s) \<union> set (fst (classify_events_at g (dp_k s)))
                                     \<union> set (fst (snd (classify_events_at g (dp_k s))))"
  using assms
proof (cases rule: enumerate_transitions_cases)
  case (T1 yclose)
  then show ?thesis by auto
next
  case (T2 yopen r)
  from t2_body_shape[OF T2(4,5)] T2(3) show ?thesis
  proof (elim conjE disjE)
    assume "length (open_set s) = 0" "open_set (fst t) = [yopen]"
    with T2(3) show ?thesis by auto
  next
    assume a: "length (open_set s) = 1" "open_set (fst t) = py_set_of [open_set s ! 0, yopen]"
    then have "open_set s ! 0 \<in> set (open_set s)" by simp
    with a T2(3) show ?thesis by auto
  qed
next
  case (T3 yclose yopen r)
  let ?B = "filter (\<lambda>y. y \<noteq> yclose) (open_set s)"
  from t3_body_shape[OF T3(6,7)] show ?thesis
  proof (elim conjE disjE)
    assume "length ?B = 0" "open_set (fst t) = [yopen]"
    with T3(5) show ?thesis by auto
  next
    assume a: "length ?B = 1" "open_set (fst t) = py_set_of [?B ! 0, yopen]"
    then have "0 < length ?B" by simp
    then have "?B ! 0 \<in> set ?B" by (rule nth_mem)
    then have "?B ! 0 \<in> set (open_set s)"
      using filter_is_subset[of "\<lambda>y. y \<noteq> yclose" "open_set s"] by blast
    with a T3(5) show ?thesis by auto
  qed
next
  case (T4 y nb r)
  from t4_body_shape[OF T4(4,5)] show ?thesis by auto
next
  case T5
  then show ?thesis
    by (cases "classify_events_at g (dp_k s)") (auto simp: t5_results_shape)
qed

lemma init_state_simps [simp]:
  "dp_k (init_state y yv) = 1" "loose_flag (init_state y yv) = 1"
  "sorted (open_set (init_state y yv))" "length (open_set (init_state y yv)) \<le> 2"
  "set (open_set (init_state y yv)) \<subseteq> {y}"
  by (auto simp: init_state_def)

lemma dp_reach_invariant:
  assumes c: "Construct n ys = Inr g" and "s \<in> dp_reach g"
  shows "1 \<le> dp_k s \<and> dp_k s \<le> max 1 (g_n g) \<and> sorted (open_set s) \<and> length (open_set s) \<le> 2
         \<and> open_in_range g s \<and> (loose_flag s = 0 \<or> loose_flag s = 1)"
  using assms(2)
proof (induction rule: dp_reach.induct)
  case base
  then show ?case by (simp add: open_in_range_def)
next
  case (init nb y yv)
  from Construct_neighbors_in_range[OF c init(1,2)]
  have "open_in_range g (init_state y yv)"
    by (auto simp: open_in_range_def init_state_def split: if_splits)
  then show ?case by simp
next
  case (step s ts s' ttype es)
  note sh = transition_shape[OF step(4,5)] and os = transition_open_set[OF step(4,5)]
  have "open_in_range g s'"
    unfolding open_in_range_def
  proof
    fix y assume "y \<in> set (open_set s')"
    with os consider "y \<in> set (open_set s)"
      | "y \<in> set (fst (classify_events_at g (dp_k s))) \<union> set (fst (snd (classify_events_at g (dp_k s))))"
      by auto
    then show "0 \<le> y \<and> y < g_n g"
    proof cases
      case 1
      with step.IH show ?thesis by (simp add: open_in_range_def)
    next
      case 2
      then show ?thesis by (intro events_in_range[OF c, of y "dp_k s"]) auto
    qed
  qed
  with sh os step.IH show ?case by auto
qed

lemma check_stack_order_total:
  assumes "Construct n ys = Inr g" and "0 \<le> y1 \<and> y1 < g_n g" and "0 \<le> y2 \<and> y2 < g_n g"
  shows "\<exists>b. check_stack_order g y1 y2 = Inr b"
  using assms by (auto simp: check_stack_order_def Construct_py_get_y[OF assms(1)])

lemma is_convex_at_total:
  assumes "Construct n ys = Inr g" and "0 \<le> y \<and> y < g_n g"
  shows "\<exists>b. is_convex_at g y i = Inr b"
  using assms by (auto simp: is_convex_at_def Construct_py_get_y[OF assms(1)] Let_def)

lemma enumerate_transitions_total:
  assumes c: "Construct n ys = Inr g" and r: "open_in_range g s"
  shows "\<exists>ts. enumerate_transitions g s = Inr ts"
proof -
  obtain E1 E2 E3 E4 where ev: "classify_events_at g (dp_k s) = (E1, E2, E3, E4)"
    by (cases "classify_events_at g (dp_k s)") auto
  obtain nb where nb: "neighbors_of_x g (dp_k s) = Inr nb"
    using Construct_neighbors_of_x[OF c] by blast
  have evr: "\<And>y. y \<in> set E1 \<union> set E2 \<union> set E3 \<union> set E4 \<Longrightarrow> 0 \<le> y \<and> y < g_n g"
    using events_in_range[OF c, of _ "dp_k s"] by (simp add: ev)
  have "\<exists>r1. collect (t1_body (dp_k s) (open_set s)) (set_and (py_set_of (open_set s)) E3) = Inr r1"
    by (intro collect_total) (simp add: t1_body_def)
  then obtain r1 where r1: "collect (t1_body (dp_k s) (open_set s)) (set_and (py_set_of (open_set s)) E3) = Inr r1" ..
  have "\<exists>r2. collect (t2_body g (dp_k s) (open_set s)) (set_minus (set_or E1 E2) (py_set_of (open_set s))) = Inr r2"
  proof (intro collect_total)
    fix yopen assume "yopen \<in> set (set_minus (set_or E1 E2) (py_set_of (open_set s)))"
    then have yo: "0 \<le> yopen \<and> yopen < g_n g" using evr[of yopen] by auto
    show "\<exists>r. t2_body g (dp_k s) (open_set s) yopen = Inr r"
    proof (cases "length (open_set s) = 1")
      case True
      then have "open_set s ! 0 \<in> set (open_set s)" by simp
      with r have "0 \<le> open_set s ! 0 \<and> open_set s ! 0 < g_n g" by (simp add: open_in_range_def)
      from check_stack_order_total[OF c this yo] True show ?thesis
        by (auto simp: t2_body_def)
    next
      case False
      then show ?thesis by (simp add: t2_body_def)
    qed
  qed
  then obtain r2 where r2: "collect (t2_body g (dp_k s) (open_set s)) (set_minus (set_or E1 E2) (py_set_of (open_set s))) = Inr r2" ..
  have "\<exists>r3. collect (\<lambda>yclose. collect (t3_body g (dp_k s) (open_set s) yclose) (set_minus E2 (py_set_of (open_set s))))
           (set_and (py_set_of (open_set s)) E3) = Inr r3"
  proof (intro collect_total)
    fix yclose yopen
    assume "yopen \<in> set (set_minus E2 (py_set_of (open_set s)))"
    then have yo: "0 \<le> yopen \<and> yopen < g_n g" using evr[of yopen] by auto
    let ?B = "filter (\<lambda>y. y \<noteq> yclose) (open_set s)"
    show "\<exists>r. t3_body g (dp_k s) (open_set s) yclose yopen = Inr r"
    proof (cases "length ?B = 1")
      case True
      then have "0 < length ?B" by simp
      then have "?B ! 0 \<in> set ?B" by (rule nth_mem)
      then have "?B ! 0 \<in> set (open_set s)"
        using filter_is_subset[of "\<lambda>y. y \<noteq> yclose" "open_set s"] by blast
      with r have "0 \<le> ?B ! 0 \<and> ?B ! 0 < g_n g" by (simp add: open_in_range_def)
      from check_stack_order_total[OF c this yo] True show ?thesis
        by (auto simp: t3_body_def Let_def)
    next
      case False
      then show ?thesis by (simp add: t3_body_def Let_def)
    qed
  qed
  then obtain r3 where r3: "collect (\<lambda>yclose. collect (t3_body g (dp_k s) (open_set s) yclose) (set_minus E2 (py_set_of (open_set s))))
           (set_and (py_set_of (open_set s)) E3) = Inr r3" ..
  have "\<exists>r4. collect (t4_body g (dp_k s) (open_set s)) nb = Inr r4"
  proof (intro collect_total)
    fix y assume "y \<in> set nb"
    from is_convex_at_total[OF c Construct_neighbors_in_range[OF c nb this], of "dp_k s"]
    show "\<exists>r. t4_body g (dp_k s) (open_set s) y = Inr r"
      by (auto simp: t4_body_def)
  qed
  then obtain r4 where r4: "collect (t4_body g (dp_k s) (open_set s)) nb = Inr r4" ..
  show ?thesis
    by (simp add: enumerate_transitions_def Let_def nb ev r1 r2 r3 r4)
qed

section \<open>The run protocol\<close>

lemma successors_iff:
  "s' \<in> successors g s \<longleftrightarrow> (\<exists>ts t. enumerate_transitions g s = Inr ts \<and> t \<in> set ts \<and> s' = fst t)"
  by (cases "enumerate_transitions g s") (force simp: successors_def image_iff)+

lemma reachable_states_discover [simp]:
  "reachable_states (discover s p e) = insert s (reachable_states e)"
  by (simp add: reachable_states_def discover_def)

lemma all_true_discover: "all_true (reachable e) \<Longrightarrow> all_true (reachable (discover s p e))"
  by (simp add: discover_def all_true_dict_set)

lemma process_transition_ok:
  "\<exists>e'. process_transition st t e = Inr e' \<and> reachable_states e' = insert (fst t) (reachable_states e)
        \<and> (all_true (reachable e) \<longrightarrow> all_true (reachable e'))"
  by (cases t) (auto simp: process_transition_def dict_has_def reachable_states_def[symmetric]
                  all_true_discover)

lemma for_each_process_transition:
  "\<exists>e'. for_each (process_transition st) ts e = Inr e'
        \<and> reachable_states e' = reachable_states e \<union> fst ` set ts
        \<and> (all_true (reachable e) \<longrightarrow> all_true (reachable e'))"
proof (induction ts arbitrary: e)
  case Nil
  then show ?case by simp
next
  case (Cons t ts)
  from process_transition_ok[of st t e] obtain e1 where
    e1: "process_transition st t e = Inr e1" "reachable_states e1 = insert (fst t) (reachable_states e)"
      "all_true (reachable e) \<longrightarrow> all_true (reachable e1)" by blast
  from Cons.IH[of e1] obtain e' where
    "for_each (process_transition st) ts e1 = Inr e'"
    "reachable_states e' = reachable_states e1 \<union> fst ` set ts"
    "all_true (reachable e1) \<longrightarrow> all_true (reachable e')" by blast
  with e1 show ?case by auto
qed

lemma process_state_ok:
  assumes "all_true (reachable e)" and "s \<in> reachable_states e" and "enumerate_transitions g s = Inr ts"
  shows "\<exists>e'. process_state g s e = Inr e' \<and> reachable_states e' = reachable_states e \<union> successors g s
              \<and> all_true (reachable e')"
proof -
  from assms(1,2) have "dict_get (reachable e) s False"
    by (simp add: dict_get_all_true reachable_states_def)
  with for_each_process_transition[of s ts e] assms(1,3) show ?thesis
    by (auto simp: process_state_def successors_def)
qed

lemma for_each_process_state:
  assumes "all_true (reachable e)"
    and "\<forall>s\<in>set cs. s \<in> reachable_states e \<and> (\<exists>ts. enumerate_transitions g s = Inr ts)"
  shows "\<exists>e'. for_each (process_state g) cs e = Inr e'
              \<and> reachable_states e' = reachable_states e \<union> (\<Union>s\<in>set cs. successors g s)
              \<and> all_true (reachable e')"
  using assms
proof (induction cs arbitrary: e)
  case Nil
  then show ?case by simp
next
  case (Cons s cs)
  from Cons.prems obtain ts where ts: "enumerate_transitions g s = Inr ts" and s: "s \<in> reachable_states e"
    by auto
  from process_state_ok[OF Cons.prems(1) s ts] obtain e1 where
    e1: "process_state g s e = Inr e1" "reachable_states e1 = reachable_states e \<union> successors g s"
      "all_true (reachable e1)" by blast
  from Cons.prems(2) e1(2)
  have "\<forall>s\<in>set cs. s \<in> reachable_states e1 \<and> (\<exists>ts. enumerate_transitions g s = Inr ts)"
    by auto
  from Cons.IH[OF e1(3) this] obtain e' where
    "for_each (process_state g) cs e1 = Inr e'"
    "reachable_states e' = reachable_states e1 \<union> (\<Union>s\<in>set cs. successors g s)"
    "all_true (reachable e')" by blast
  with e1 show ?case by auto
qed

lemma dp_reach_layer_Suc:
  assumes c: "Construct n ys = Inr g" and k: "1 \<le> k" "k \<le> g_n g - 1"
  shows "{s \<in> dp_reach g. dp_k s \<le> k + 1}
         = {s \<in> dp_reach g. dp_k s \<le> k} \<union> (\<Union>s\<in>{s \<in> dp_reach g. dp_k s = k}. successors g s)"
    (is "?L = ?A \<union> ?B")
proof (intro set_eqI iffI)
  fix s' assume "s' \<in> ?L"
  then have r: "s' \<in> dp_reach g" and le: "dp_k s' \<le> k + 1" by auto
  show "s' \<in> ?A \<union> ?B"
  proof (cases "dp_k s' \<le> k")
    case True
    with r show ?thesis by simp
  next
    case False
    with le have eq: "dp_k s' = k + 1" by simp
    from r show ?thesis
    proof (cases rule: dp_reach.cases)
      case base
      with eq k show ?thesis by simp
    next
      case (init nb y yv)
      with eq k show ?thesis by simp
    next
      case (step s ts ttype es)
      from transition_shape[OF step(4,5)] eq have "dp_k s = k" by simp
      moreover from step(4,5) have "s' \<in> successors g s" by (force simp: successors_def)
      ultimately show ?thesis using step(1) by blast
    qed
  qed
next
  fix s' assume "s' \<in> ?A \<union> ?B"
  then show "s' \<in> ?L"
  proof
    assume "s' \<in> ?A"
    then show ?thesis by auto
  next
    assume "s' \<in> ?B"
    then obtain s ts t where s: "s \<in> dp_reach g" "dp_k s = k" and
      ts: "enumerate_transitions g s = Inr ts" "t \<in> set ts" "s' = fst t"
      by (auto simp: successors_iff)
    from ts have "(s', fst (snd t), snd (snd t)) \<in> set ts" by simp
    from dp_reach.step[OF s(1) _ _ ts(1) this] s(2) k have "s' \<in> dp_reach g" by simp
    moreover from transition_shape[OF ts(1,2)] ts(3) s(2) have "dp_k s' = k + 1" by simp
    ultimately show ?thesis by simp
  qed
qed

lemma process_layer_ok:
  assumes c: "Construct n ys = Inr g" and inv: "layer_inv g k e" and k: "1 \<le> k" "k \<le> g_n g - 1"
  shows "\<exists>e' spk'. process_layer g k (e, spk) = Inr (e', spk') \<and> layer_inv g (k + 1) e'"
proof -
  let ?cs = "filter (\<lambda>s. dp_k s = k) (dict_keys (reachable e))"
  from inv have at: "all_true (reachable e)" and rs: "reachable_states e = {s \<in> dp_reach g. dp_k s \<le> k}"
    by (simp_all add: layer_inv_def)
  have cs: "set ?cs = {s \<in> dp_reach g. dp_k s = k}"
    using rs by (auto simp: reachable_states_def)
  have "\<forall>s\<in>set ?cs. s \<in> reachable_states e \<and> (\<exists>ts. enumerate_transitions g s = Inr ts)"
  proof
    fix s assume "s \<in> set ?cs"
    then have "s \<in> reachable_states e" and "s \<in> dp_reach g"
      using rs by (auto simp: reachable_states_def)
    with dp_reach_invariant[OF c] enumerate_transitions_total[OF c, of s]
    show "s \<in> reachable_states e \<and> (\<exists>ts. enumerate_transitions g s = Inr ts)" by blast
  qed
  from for_each_process_state[OF at this] obtain e' where
    e': "for_each (process_state g) ?cs e = Inr e'"
      "reachable_states e' = reachable_states e \<union> (\<Union>s\<in>set ?cs. successors g s)"
      "all_true (reachable e')" by blast
  from e'(2) rs cs dp_reach_layer_Suc[OF c k]
  have "reachable_states e' = {s \<in> dp_reach g. dp_k s \<le> k + 1}" by simp
  with e'(1,3) show ?thesis
    by (simp add: process_layer_def Let_def layer_inv_def)
qed

lemma layers_ok:
  assumes c: "Construct n ys = Inr g"
  shows "layer_inv g j e \<Longrightarrow> 1 \<le> j \<Longrightarrow> m \<le> g_n g - 1 \<Longrightarrow>
         \<exists>e' spk'. for_each (process_layer g) [j..m] (e, spk) = Inr (e', spk')
                    \<and> layer_inv g (max j (m + 1)) e'"
proof (induction "nat (m + 1 - j)" arbitrary: j e spk)
  case 0
  then have "[j..m] = []" by simp
  moreover from 0 have "max j (m + 1) = j" by simp
  ultimately show ?case using 0 by simp
next
  case (Suc d)
  then have jm: "j \<le> m" by simp
  then have up: "[j..m] = j # [j + 1..m]" by (simp add: upto_rec1)
  from process_layer_ok[OF c Suc.prems(1,2), of spk] jm Suc.prems(3) obtain e1 spk1 where
    e1: "process_layer g j (e, spk) = Inr (e1, spk1)" "layer_inv g (j + 1) e1" by auto
  from Suc.hyps(2) have "d = nat (m + 1 - (j + 1))" by simp
  from Suc.hyps(1)[OF this e1(2) _ Suc.prems(3), of spk1] Suc.prems(2) obtain e' spk' where
    "for_each (process_layer g) [j + 1..m] (e1, spk1) = Inr (e', spk')"
    "layer_inv g (max (j + 1) (m + 1)) e'" by auto
  moreover from jm have "max (j + 1) (m + 1) = max j (m + 1)" by simp
  ultimately show ?case using e1(1) up by simp
qed

lemma init_body_ok:
  assumes "py_get (y_vertices g) y = Inr yv"
  shows "\<exists>e'. init_body g y e = Inr e'
              \<and> reachable_states e' = insert (init_state y yv) (reachable_states e)
              \<and> (all_true (reachable e) \<longrightarrow> all_true (reachable e'))"
  using assms
  by (auto simp: init_body_def Let_def init_state_def dict_has_def reachable_states_def[symmetric]
        all_true_discover)

lemma for_each_init_body:
  assumes "\<forall>y\<in>set nb. \<exists>yv. py_get (y_vertices g) y = Inr yv"
  shows "\<exists>e'. for_each (init_body g) nb e = Inr e'
              \<and> reachable_states e' = reachable_states e
                   \<union> {init_state y yv | y yv. y \<in> set nb \<and> py_get (y_vertices g) y = Inr yv}
              \<and> (all_true (reachable e) \<longrightarrow> all_true (reachable e'))"
  using assms
proof (induction nb arbitrary: e)
  case Nil
  then show ?case by simp
next
  case (Cons y nb)
  then obtain yv where yv: "py_get (y_vertices g) y = Inr yv" by auto
  from init_body_ok[OF yv, of e] obtain e1 where
    e1: "init_body g y e = Inr e1" "reachable_states e1 = insert (init_state y yv) (reachable_states e)"
      "all_true (reachable e) \<longrightarrow> all_true (reachable e1)" by blast
  from Cons.prems have "\<forall>y\<in>set nb. \<exists>yv. py_get (y_vertices g) y = Inr yv" by simp
  from Cons.IH[OF this, of e1] obtain e' where
    e': "for_each (init_body g) nb e1 = Inr e'"
      "reachable_states e' = reachable_states e1
         \<union> {init_state y yv | y yv. y \<in> set nb \<and> py_get (y_vertices g) y = Inr yv}"
      "all_true (reachable e1) \<longrightarrow> all_true (reachable e')" by blast
  have "reachable_states e' = reachable_states e
          \<union> {init_state y' yv | y' yv. y' \<in> set (y # nb) \<and> py_get (y_vertices g) y' = Inr yv}"
    using e'(2) e1(2) yv by auto
  with e1 e' show ?case by auto
qed

lemma initial_states_ok:
  assumes c: "Construct n ys = Inr g"
  shows "\<exists>e1. initial_states g HamiltonianDPSolver = Inr e1 \<and> layer_inv g 1 e1"
proof -
  let ?base = "\<lparr> dp_k = 1, open_set = [], loose_flag = 1 \<rparr>"
  let ?e0 = "HamiltonianDPSolver\<lparr> reachable := dict_set ?base True (reachable HamiltonianDPSolver) \<rparr>"
  obtain nb where nb: "neighbors_of_x g 0 = Inr nb"
    using Construct_neighbors_of_x[OF c] by blast
  have e0: "reachable_states ?e0 = {?base}" "all_true (reachable ?e0)"
    by (simp_all add: reachable_states_def HamiltonianDPSolver_def all_true_def dict_keys_def)
  have "\<forall>y\<in>set nb. \<exists>yv. py_get (y_vertices g) y = Inr yv"
    using Construct_neighbors_in_range[OF c nb] Construct_py_get_y[OF c] by blast
  from for_each_init_body[OF this, of ?e0] e0 obtain e1 where
    e1: "for_each (init_body g) nb ?e0 = Inr e1"
      "reachable_states e1 = {?base}
         \<union> {init_state y yv | y yv. y \<in> set nb \<and> py_get (y_vertices g) y = Inr yv}"
      "all_true (reachable e1)" by auto
  have "reachable_states e1 = {s \<in> dp_reach g. dp_k s \<le> 1}"
  proof (intro set_eqI iffI)
    fix s assume "s \<in> reachable_states e1"
    with e1(2) nb show "s \<in> {s \<in> dp_reach g. dp_k s \<le> 1}"
      by (auto intro: dp_reach.base dp_reach.init)
  next
    fix s assume "s \<in> {s \<in> dp_reach g. dp_k s \<le> 1}"
    then have r: "s \<in> dp_reach g" and le: "dp_k s \<le> 1" by auto
    from r show "s \<in> reachable_states e1"
    proof (cases rule: dp_reach.cases)
      case base
      with e1(2) show ?thesis by simp
    next
      case (init nb' y yv)
      with nb e1(2) show ?thesis by auto
    next
      case (step s0 ts ttype es)
      from transition_shape[OF step(4,5)] step(2) le show ?thesis by simp
    qed
  qed
  with e1(1,3) nb show ?thesis
    by (simp add: initial_states_def Let_def layer_inv_def)
qed

lemma dp_reach_layer_all:
  assumes c: "Construct n ys = Inr g"
  shows "{s \<in> dp_reach g. dp_k s \<le> max 1 (g_n g - 1 + 1)} = dp_reach g"
  using dp_reach_invariant[OF c] by auto

lemma run_ok:
  assumes c: "Construct n ys = Inr g"
  shows "\<exists>stats e'. run g e = Inr (stats, e') \<and> reachable_states e' = dp_reach g
           \<and> (accepted stats \<longleftrightarrow> \<lparr> dp_k = g_n g, open_set = [], loose_flag = 0 \<rparr> \<in> reachable_states e')"
proof -
  from initial_states_ok[OF c] obtain e1 where
    e1: "initial_states g HamiltonianDPSolver = Inr e1" "layer_inv g 1 e1" by blast
  from layers_ok[OF c e1(2), of "g_n g - 1" "[]"] obtain e2 spk where
    e2: "for_each (process_layer g) [1..g_n g - 1] (e1, []) = Inr (e2, spk)"
      "layer_inv g (max 1 (g_n g - 1 + 1)) e2" by auto
  from e2(2) dp_reach_layer_all[OF c] have r: "reachable_states e2 = dp_reach g"
    and at: "all_true (reachable e2)" by (simp_all add: layer_inv_def)
  have "run g HamiltonianDPSolver
        = Inr (\<lparr> total_states = int (length (reachable e2)), states_per_k = spk,
                  max_states_per_k = (if spk \<noteq> [] then Max (set (map snd spk)) else 0),
                  stats_transitions_per_type = transitions_per_type e2,
                  accepted = dict_get (reachable e2) \<lparr> dp_k = g_n g, open_set = [], loose_flag = 0 \<rparr> False \<rparr>,
                e2)"
    using e1(1) e2(1) by (simp add: run_def Let_def solver_cleared)
  with r at show ?thesis
    by (simp add: run_clears[of g e] dict_get_all_true reachable_states_def)
qed

lemma Construct_hamiltonian_n3: "Construct 3 hamiltonian_n3_y_vertices = Inr hamiltonian_n3_graph"
  using build_hamiltonian_n3_graph_eq by (simp add: build_hamiltonian_n3_graph_def)

text \<open>
  C1: on a constructed graph, \<open>run()\<close> returns; what it returns does not depend on what the
  solver's three dictionaries held before (they are cleared first); afterwards the keys of
  \<open>reachable\<close> are exactly the seeds of layer 1 closed under the transitions fired from
  the layers 1 to \<open>n-1\<close>; and \<open>accepted\<close> is true if and only if the state
  \<open>(n, empty, 0)\<close> is among them.
\<close>

theorem run_follows_protocol:
  assumes "Construct n ys = Inr g"
  shows "\<exists>stats e'. run g e = Inr (stats, e')
           \<and> run g e = run g HamiltonianDPSolver
           \<and> reachable_states e' = dp_reach g
           \<and> (accepted stats \<longleftrightarrow> \<lparr> dp_k = g_n g, open_set = [], loose_flag = 0 \<rparr> \<in> reachable_states e')"
  using run_ok[OF assms, of e] run_clears[of g e] by blast

theorem run_follows_protocol_witness:
  "Construct 3 hamiltonian_n3_y_vertices = Inr hamiltonian_n3_graph
   \<and> (\<exists>stats e'. run hamiltonian_n3_graph stale_solver = Inr (stats, e')
           \<and> run hamiltonian_n3_graph stale_solver = run hamiltonian_n3_graph HamiltonianDPSolver
           \<and> dict_keys (reachable e') = hamiltonian_n3_states
           \<and> accepted stats = True)
   \<and> dp_reach hamiltonian_n3_graph = set hamiltonian_n3_states
   \<and> \<lparr> dp_k = 3, open_set = [], loose_flag = 0 \<rparr> \<in> dp_reach hamiltonian_n3_graph"
proof -
  from run_follows_protocol[OF Construct_hamiltonian_n3, of stale_solver] obtain stats e' where
    r: "run hamiltonian_n3_graph stale_solver = Inr (stats, e')"
      "run hamiltonian_n3_graph stale_solver = run hamiltonian_n3_graph HamiltonianDPSolver"
      "reachable_states e' = dp_reach hamiltonian_n3_graph"
      "accepted stats \<longleftrightarrow> \<lparr> dp_k = g_n hamiltonian_n3_graph, open_set = [], loose_flag = 0 \<rparr>
          \<in> reachable_states e'"
    by blast
  from run_hamiltonian_n3_states r(1,2) have k: "dict_keys (reachable e') = hamiltonian_n3_states"
    by simp
  with r(3) have d: "dp_reach hamiltonian_n3_graph = set hamiltonian_n3_states"
    by (simp add: reachable_states_def)
  have m: "\<lparr> dp_k = 3, open_set = [], loose_flag = 0 \<rparr> \<in> set hamiltonian_n3_states"
    by (simp add: hamiltonian_n3_states_def)
  have "g_n hamiltonian_n3_graph = 3" by (simp add: hamiltonian_n3_graph_def)
  with r(4) r(3) d m have "accepted stats = True" by simp
  with r(1,2) k d m Construct_hamiltonian_n3 show ?thesis by blast
qed

text \<open>
  C8: on a constructed graph, \<open>run()\<close> returns the same \<open>DPStats\<close>, equal in every field,
  whatever solver it starts from: a second run on the solver that the first run left
  behind, or a run on any other solver of the same graph, gives the statistics (and the
  solver state) of the first.
\<close>

theorem run_twice_same_stats:
  assumes "Construct n ys = Inr g"
  shows "\<exists>stats e1. run g e = Inr (stats, e1) \<and> run g e1 = Inr (stats, e1)
           \<and> run g e' = Inr (stats, e1)"
proof -
  from run_ok[OF assms, of e] obtain stats e1 where "run g e = Inr (stats, e1)" by blast
  moreover have "run g e1 = run g e" "run g e' = run g e"
    using run_clears[of g e] run_clears[of g e1] run_clears[of g e'] by simp_all
  ultimately show ?thesis by simp
qed

theorem run_twice_same_stats_witness:
  "Construct 3 hamiltonian_n3_y_vertices = Inr hamiltonian_n3_graph
   \<and> (\<exists>e1. run hamiltonian_n3_graph stale_solver = Inr (hamiltonian_n3_stats, e1)
         \<and> run hamiltonian_n3_graph e1 = Inr (hamiltonian_n3_stats, e1)
         \<and> run hamiltonian_n3_graph HamiltonianDPSolver = Inr (hamiltonian_n3_stats, e1))"
proof -
  from run_twice_same_stats[OF Construct_hamiltonian_n3, of stale_solver HamiltonianDPSolver]
  obtain stats e1 where
    r: "run hamiltonian_n3_graph stale_solver = Inr (stats, e1)"
      "run hamiltonian_n3_graph e1 = Inr (stats, e1)"
      "run hamiltonian_n3_graph HamiltonianDPSolver = Inr (stats, e1)"
    by blast
  from run_hamiltonian_n3_stats r(3) have "stats = hamiltonian_n3_stats" by simp
  with r Construct_hamiltonian_n3 show ?thesis by blast
qed

section \<open>Graphs with at most one vertex per side\<close>

lemma dp_reach_small:
  assumes "g_n g \<le> 1" and "s \<in> dp_reach g"
  shows "dp_k s = 1 \<and> loose_flag s = 1"
  using assms(2,1) by (induction rule: dp_reach.induct) simp_all

lemma Construct_single_edge: "Construct 1 single_edge_y_vertices = Inr single_edge_graph"
  by code_simp

lemma Construct_empty: "Construct 0 [] = Inr empty_graph"
  by code_simp

lemma find_cycle_single_edge: "find_cycle single_edge_graph = Inr (Some [(''X'', 0), (''Y'', 0)])"
  by code_simp

text \<open>
  C9: on a constructed graph with \<open>n \<le> 1\<close>, \<open>run()\<close> returns \<open>accepted = false\<close>: every
  reachable state is a seed, of layer 1 with loose flag 1, so the accepting state
  \<open>(n, empty, 0)\<close> is not among them; and for \<open>n = 0\<close> \<open>find_cycle\<close> returns the empty cycle.
\<close>

theorem run_rejects_small_graphs:
  assumes "Construct n ys = Inr g" and "n \<le> 1"
  shows "(\<exists>stats e'. run g e = Inr (stats, e') \<and> accepted stats = False
            \<and> (\<forall>s\<in>reachable_states e'. dp_k s = 1 \<and> loose_flag s = 1))
         \<and> (n = 0 \<longrightarrow> find_cycle g = Inr (Some []))"
proof -
  from Construct_Inr(3)[OF assms(1)] have n: "g_n g = n" by (simp add: fully_built_def)
  from run_ok[OF assms(1), of e] obtain stats e' where
    r: "run g e = Inr (stats, e')" "reachable_states e' = dp_reach g"
      "accepted stats \<longleftrightarrow> \<lparr> dp_k = g_n g, open_set = [], loose_flag = 0 \<rparr> \<in> reachable_states e'"
    by blast
  have small: "\<forall>s\<in>reachable_states e'. dp_k s = 1 \<and> loose_flag s = 1"
    using dp_reach_small[of g] assms(2) n r(2) by simp
  then have "\<lparr> dp_k = g_n g, open_set = [], loose_flag = 0 \<rparr> \<notin> reachable_states e'"
    by force
  with r small have "\<exists>stats e'. run g e = Inr (stats, e') \<and> accepted stats = False
            \<and> (\<forall>s\<in>reachable_states e'. dp_k s = 1 \<and> loose_flag s = 1)" by blast
  moreover have "n = 0 \<longrightarrow> find_cycle g = Inr (Some [])"
    using n by (simp add: find_cycle_def)
  ultimately show ?thesis by blast
qed

theorem run_rejects_small_graphs_witness:
  "Construct 0 [] = Inr empty_graph
   \<and> (\<exists>stats e'. run empty_graph HamiltonianDPSolver = Inr (stats, e') \<and> accepted stats = False)
   \<and> find_cycle empty_graph = Inr (Some [])
   \<and> Construct 1 single_edge_y_vertices = Inr single_edge_graph
   \<and> (''X'', 0, ''Y'', 0) \<in> edges single_edge_graph
   \<and> (\<exists>stats e'. run single_edge_graph HamiltonianDPSolver = Inr (stats, e') \<and> accepted stats = False)
   \<and> find_cycle single_edge_graph = Inr (Some [(''X'', 0), (''Y'', 0)])"
proof -
  have "(0::int) \<le> 1" "(1::int) \<le> 1" by simp_all
  from run_rejects_small_graphs[OF Construct_empty this(1), of HamiltonianDPSolver]
    run_rejects_small_graphs[OF Construct_single_edge this(2), of HamiltonianDPSolver]
  have "\<exists>stats e'. run empty_graph HamiltonianDPSolver = Inr (stats, e') \<and> accepted stats = False"
    "find_cycle empty_graph = Inr (Some [])"
    "\<exists>stats e'. run single_edge_graph HamiltonianDPSolver = Inr (stats, e') \<and> accepted stats = False"
    by blast+
  moreover have "(''X'', 0, ''Y'', 0) \<in> edges single_edge_graph"
    by (simp add: single_edge_graph_def)
  ultimately show ?thesis
    using Construct_empty Construct_single_edge find_cycle_single_edge by blast
qed

section \<open>The rule T5\<close>

lemma t5_results_in_transitions:
  assumes "enumerate_transitions g s = Inr ts" and "neighbors_of_x g (dp_k s) = Inr nb"
    and "nb \<noteq> []" and "dp_k s < g_n g"
  shows "set (t5_results (dp_k s) (open_set s) (loose_flag s) (classify_events_at g (dp_k s))) \<subseteq> set ts"
  using assms
  by (cases "classify_events_at g (dp_k s)")
     (auto simp: enumerate_transitions_def Let_def bind_err_eq_Inr split: if_splits)

lemma t5_transition_shape:
  assumes "enumerate_transitions g s = Inr ts" and "(s', ''T5'', es) \<in> set ts"
  shows "classify_events_at g (dp_k s) = ([], [], [], [])
         \<and> s' = \<lparr> dp_k = dp_k s + 1, open_set = sort (open_set s), loose_flag = loose_flag s \<rparr>
         \<and> es = []"
  using assms
proof (cases rule: enumerate_transitions_cases)
  case (T1 yclose)
  then show ?thesis by simp
next
  case (T2 yopen r)
  from t2_body_shape[OF T2(4,5)] show ?thesis by simp
next
  case (T3 yclose yopen r)
  from t3_body_shape[OF T3(6,7)] show ?thesis by simp
next
  case (T4 y nb r)
  from t4_body_shape[OF T4(4,5)] show ?thesis by simp
next
  case T5
  then show ?thesis
    by (cases "classify_events_at g (dp_k s)") (auto simp: t5_results_shape)
qed

lemma Construct_interior_n3: "Construct 3 interior_n3_y_vertices = Inr interior_n3_graph"
  by code_simp

lemma Construct_isolated_x1: "Construct 2 isolated_x1_y_vertices = Inr isolated_x1_graph"
  by code_simp

lemma enumerate_interior_n3:
  "enumerate_transitions interior_n3_graph \<lparr> dp_k = 1, open_set = [], loose_flag = 1 \<rparr>
   = Inr [(\<lparr> dp_k = 2, open_set = [], loose_flag = 1 \<rparr>, ''T5'', [])]"
  by code_simp

lemma neighbors_interior_n3: "neighbors_of_x interior_n3_graph 1 = Inr [0, 1, 2]"
  by code_simp

lemma neighbors_isolated_x1: "neighbors_of_x isolated_x1_graph 1 = Inr []"
  by code_simp

text \<open>
  C3: for a reachable state \<open>(k, O, L)\<close> with \<open>k < n\<close> of a constructed graph, the
  enumeration returns. If X-index \<open>k\<close> has no neighbour it returns no transition at all;
  if it has one, a transition tagged T5 is returned exactly when the four event sets at
  \<open>k\<close> are empty, and every such transition leads to \<open>(k+1, O, L)\<close> and adds no edge.
\<close>

theorem t5_fires_iff_no_events:
  assumes "Construct n ys = Inr g" and "s \<in> dp_reach g" and "dp_k s < g_n g"
  shows "\<exists>nb ts. neighbors_of_x g (dp_k s) = Inr nb \<and> enumerate_transitions g s = Inr ts
           \<and> (nb = [] \<longrightarrow> ts = [])
           \<and> (nb \<noteq> [] \<longrightarrow>
                ((\<exists>s' es. (s', ''T5'', es) \<in> set ts) \<longleftrightarrow> classify_events_at g (dp_k s) = ([], [], [], []))
                \<and> (\<forall>s' es. (s', ''T5'', es) \<in> set ts \<longrightarrow>
                      s' = \<lparr> dp_k = dp_k s + 1, open_set = open_set s, loose_flag = loose_flag s \<rparr>
                      \<and> es = []))"
proof -
  note inv = dp_reach_invariant[OF assms(1,2)]
  obtain nb where nb: "neighbors_of_x g (dp_k s) = Inr nb"
    using Construct_neighbors_of_x[OF assms(1)] by blast
  from inv enumerate_transitions_total[OF assms(1), of s] obtain ts where
    ts: "enumerate_transitions g s = Inr ts" by blast
  from inv have srt: "sort (open_set s) = open_set s" by (simp add: sorted_sort_id)
  have dead: "ts = []" if "nb = []"
    using ts nb that by (simp add: enumerate_transitions_def Let_def split: if_splits)
  have fires: "\<exists>s' es. (s', ''T5'', es) \<in> set ts"
    if "nb \<noteq> []" "classify_events_at g (dp_k s) = ([], [], [], [])"
  proof -
    from that(2)
    have "(\<lparr> dp_k = dp_k s + 1, open_set = sort (open_set s), loose_flag = loose_flag s \<rparr>, ''T5'', [])
          \<in> set (t5_results (dp_k s) (open_set s) (loose_flag s) (classify_events_at g (dp_k s)))"
      by (simp add: t5_results_shape)
    with t5_results_in_transitions[OF ts nb that(1) assms(3)] show ?thesis by blast
  qed
  have only: "classify_events_at g (dp_k s) = ([], [], [], [])
      \<and> s' = \<lparr> dp_k = dp_k s + 1, open_set = open_set s, loose_flag = loose_flag s \<rparr> \<and> es = []"
    if "(s', ''T5'', es) \<in> set ts" for s' es
    using t5_transition_shape[OF ts that] srt by simp
  from nb ts dead fires only show ?thesis by blast
qed

theorem t5_fires_iff_no_events_witness:
  "Construct 3 interior_n3_y_vertices = Inr interior_n3_graph
   \<and> \<lparr> dp_k = 1, open_set = [], loose_flag = 1 \<rparr> \<in> dp_reach interior_n3_graph
   \<and> neighbors_of_x interior_n3_graph 1 = Inr [0, 1, 2]
   \<and> classify_events_at interior_n3_graph 1 = ([], [], [], [])
   \<and> enumerate_transitions interior_n3_graph \<lparr> dp_k = 1, open_set = [], loose_flag = 1 \<rparr>
       = Inr [(\<lparr> dp_k = 2, open_set = [], loose_flag = 1 \<rparr>, ''T5'', [])]
   \<and> Construct 2 isolated_x1_y_vertices = Inr isolated_x1_graph
   \<and> \<lparr> dp_k = 1, open_set = [], loose_flag = 1 \<rparr> \<in> dp_reach isolated_x1_graph
   \<and> neighbors_of_x isolated_x1_graph 1 = Inr []
   \<and> enumerate_transitions isolated_x1_graph \<lparr> dp_k = 1, open_set = [], loose_flag = 1 \<rparr> = Inr []"
proof -
  let ?s = "\<lparr> dp_k = 1, open_set = [], loose_flag = 1 \<rparr>"
  have a: "?s \<in> dp_reach interior_n3_graph" "?s \<in> dp_reach isolated_x1_graph"
    by (rule dp_reach.base)+
  have k: "dp_k ?s < g_n interior_n3_graph" "dp_k ?s < g_n isolated_x1_graph"
    by (simp_all add: interior_n3_graph_def isolated_x1_graph_def)
  from t5_fires_iff_no_events[OF Construct_interior_n3 a(1) k(1)] enumerate_interior_n3
    neighbors_interior_n3
  have "classify_events_at interior_n3_graph 1 = ([], [], [], [])" by auto
  moreover from t5_fires_iff_no_events[OF Construct_isolated_x1 a(2) k(2)] neighbors_isolated_x1
  have "enumerate_transitions isolated_x1_graph ?s = Inr []" by auto
  ultimately show ?thesis
    using a Construct_interior_n3 Construct_isolated_x1 enumerate_interior_n3
      neighbors_interior_n3 neighbors_isolated_x1 by blast
qed

section \<open>The backtracking search\<close>

lemma for_each_total:
  assumes "I s" and "\<And>x s. x \<in> set xs \<Longrightarrow> I s \<Longrightarrow> \<exists>s'. body x s = Inr s' \<and> I s'"
  shows "\<exists>s'. for_each body xs s = Inr s' \<and> I s'"
  using assms
proof (induction xs arbitrary: s)
  case Nil
  then show ?case by simp
next
  case (Cons x xs)
  from Cons.prems(2)[of x s] Cons.prems(1) obtain s1 where s1: "body x s = Inr s1" "I s1" by auto
  from Cons.IH[OF s1(2)] Cons.prems(2) obtain s' where "for_each body xs s1 = Inr s'" "I s'"
    by auto
  with s1 show ?case by auto
qed

lemma py_set_in_range: "0 \<le> i \<Longrightarrow> i < int (length xs) \<Longrightarrow> py_set xs i v = Inr (xs[nat i := v])"
  by (simp add: py_set_def py_index_in_range)

text \<open>Edges and adjacency lists of a constructed graph say the same.\<close>

lemma Construct_edge_iff:
  assumes "Construct n ys = Inr g" and "0 \<le> i" and "i < g_n g"
  shows "y \<in> set (neighbors_x g ! nat i) \<longleftrightarrow> (''X'', i, ''Y'', y) \<in> edges g"
proof -
  note fb = Construct_Inr(3)[OF assms(1)] and len = Construct_Inr(1)[OF assms(1)]
  from fb assms(2,3)
  have nx: "neighbors_x g ! nat i = filter (\<lambda>y. covers (ys ! nat y) i) (map int [0..<length ys])"
    by (simp add: fully_built_def)
  have "y \<in> set (map int [0..<length ys]) \<longleftrightarrow> 0 \<le> y \<and> y < int (length ys)"
    by (auto simp: image_iff intro: bexI[of _ "nat y"])
  with nx fb len show ?thesis by (auto simp: fully_built_def)
qed

lemma Construct_neighbor_range:
  assumes "Construct n ys = Inr g" and "0 \<le> i" and "i < g_n g" and "y \<in> set (neighbors_x g ! nat i)"
  shows "0 \<le> y \<and> y < g_n g"
  using Construct_neighbors_in_range[OF assms(1), of i "neighbors_x g ! nat i" y]
    Construct_neighbors_of_x[OF assms(1), of i] assms(2-4) by simp

lemma build_y_neighbors_ok:
  assumes c: "Construct n ys = Inr g"
  shows "\<exists>yn. build_y_neighbors g = Inr yn \<and> y_neighbors_ok g yn"
  unfolding build_y_neighbors_def
proof (rule for_each_total)
  show "y_neighbors_ok g (replicate (nat (g_n g)) [])"
    by (simp add: y_neighbors_ok_def)
next
  fix i yn assume i: "i \<in> set [0..g_n g - 1]" and ok: "y_neighbors_ok g yn"
  then have ir: "0 \<le> i" "i < g_n g" by auto
  with Construct_lengths(2)[OF c]
  have nb: "py_get (neighbors_x g) i = Inr (neighbors_x g ! nat i)"
    by (simp add: py_get_in_range)
  have "\<exists>yn'. for_each (\<lambda>y yn'. bind_err (py_get yn' y) (\<lambda>l. py_set yn' y (l @ [i])))
                 (neighbors_x g ! nat i) yn = Inr yn' \<and> y_neighbors_ok g yn'"
  proof (rule for_each_total[where I = "y_neighbors_ok g"])
    show "y_neighbors_ok g yn" by (rule ok)
  next
    fix y yn' assume y: "y \<in> set (neighbors_x g ! nat i)" and ok': "y_neighbors_ok g yn'"
    from Construct_neighbor_range[OF c ir y] have yr: "0 \<le> y" "y < g_n g" by auto
    from ok' have len: "length yn' = nat (g_n g)" by (simp add: y_neighbors_ok_def)
    with yr have yl: "y < int (length yn')" by simp
    have "y_neighbors_ok g (yn'[nat y := yn' ! nat y @ [i]])"
      unfolding y_neighbors_ok_def
    proof (intro conjI allI impI ballI)
      show "length (yn'[nat y := yn' ! nat y @ [i]]) = nat (g_n g)" using len by simp
    next
      fix y' i' assume y': "y' < nat (g_n g)" and i': "i' \<in> set (yn'[nat y := yn' ! nat y @ [i]] ! y')"
      show "0 \<le> i'" "i' < g_n g" "int y' \<in> set (neighbors_x g ! nat i')"
      proof -
        have "0 \<le> i' \<and> i' < g_n g \<and> int y' \<in> set (neighbors_x g ! nat i')"
        proof (cases "y' = nat y \<and> i' = i")
          case True
          with ir y yr show ?thesis by simp
        next
          case False
          with i' y' len have "i' \<in> set (yn' ! y')"
            by (cases "y' = nat y") (auto simp: nth_list_update)
          with ok' y' show ?thesis by (simp add: y_neighbors_ok_def)
        qed
        then show "0 \<le> i'" "i' < g_n g" "int y' \<in> set (neighbors_x g ! nat i')" by simp_all
      qed
    qed
    with yr yl show "\<exists>s'. bind_err (py_get yn' y) (\<lambda>l. py_set yn' y (l @ [i])) = Inr s' \<and> y_neighbors_ok g s'"
      by (simp add: py_get_in_range py_set_in_range)
  qed
  with nb show "\<exists>s'. bind_err (py_get (neighbors_x g) i)
             (\<lambda>nbrs. for_each (\<lambda>y yn'. bind_err (py_get yn' y) (\<lambda>l. py_set yn' y (l @ [i]))) nbrs yn) = Inr s'
           \<and> y_neighbors_ok g s'"
    by simp
qed

text \<open>Alternation and edges of a path that grows at its end.\<close>

lemma alternates_snoc:
  "alternates b (ps @ [p]) \<longleftrightarrow> alternates b ps \<and> fst p = (if even (length ps) = b then ''X'' else ''Y'')"
  by (induction ps arbitrary: b) auto

lemma alternates_last:
  "alternates b ps \<Longrightarrow> ps \<noteq> [] \<Longrightarrow> fst (last ps) = (if even (length ps) = b then ''Y'' else ''X'')"
  by (cases ps rule: rev_cases) (auto simp: alternates_snoc)

lemma alternates_hd: "alternates b ps \<Longrightarrow> ps \<noteq> [] \<Longrightarrow> fst (hd ps) = (if b then ''X'' else ''Y'')"
  by (cases ps) auto

lemma edges_along_snoc:
  "edges_along g (ps @ [q]) \<longleftrightarrow> edges_along g ps \<and> (ps = [] \<or> adjacent g (last ps) q)"
  by (induction g ps rule: edges_along.induct) auto

lemma alternates_count_X:
  "alternates b ps \<Longrightarrow> length (filter (\<lambda>p. fst p = ''X'') ps) = (if b then (length ps + 1) div 2 else length ps div 2)"
  by (induction ps arbitrary: b) auto

lemma alternates_count_Y:
  "alternates b ps \<Longrightarrow> length (filter (\<lambda>p. fst p = ''Y'') ps) = (if b then length ps div 2 else (length ps + 1) div 2)"
  by (induction ps arbitrary: b) auto

lemma bt_inv_push_y:
  assumes "bt_inv g st" and "path st \<noteq> []" and "fst (last (path st)) = ''X''"
    and "0 \<le> v" and "v < g_n g" and "adjacent g (last (path st)) (''Y'', v)"
    and "\<not> visited_y st ! nat v"
  shows "bt_inv g (st\<lparr> visited_y := (visited_y st)[nat v := True], path := path st @ [(''Y'', v)] \<rparr>)"
proof -
  from assms(1) have inv:
    "length (visited_x st) = nat (g_n g)" "length (visited_y st) = nat (g_n g)"
    "alternates True (path st)" "edges_along g (path st)" "distinct (path st)"
    "\<forall>p\<in>set (path st). 0 \<le> snd p \<and> snd p < g_n g"
    "\<forall>i<nat (g_n g). visited_x st ! i \<longleftrightarrow> (''X'', int i) \<in> set (path st)"
    "\<forall>y<nat (g_n g). visited_y st ! y \<longleftrightarrow> (''Y'', int y) \<in> set (path st)"
    by (simp_all add: bt_inv_def)
  from alternates_last[OF inv(3) assms(2)] assms(3) have odd: "\<not> even (length (path st))"
    by (simp split: if_splits)
  from assms(4,5) have vn: "nat v < nat (g_n g)" by simp
  with inv(8) assms(7,4) have new: "(''Y'', v) \<notin> set (path st)" by auto
  have vy: "\<forall>y<nat (g_n g). (visited_y st)[nat v := True] ! y \<longleftrightarrow> (''Y'', int y) \<in> set (path st @ [(''Y'', v)])"
  proof (intro allI impI)
    fix y assume y: "y < nat (g_n g)"
    show "(visited_y st)[nat v := True] ! y \<longleftrightarrow> (''Y'', int y) \<in> set (path st @ [(''Y'', v)])"
    proof (cases "y = nat v")
      case True
      with y inv(2) assms(4) show ?thesis by simp
    next
      case False
      with assms(4) have "int y \<noteq> v" by auto
      with False y inv(8) show ?thesis by simp
    qed
  qed
  show ?thesis
    unfolding bt_inv_def
    using inv odd new vy assms(2,4,5,6)
    by (simp add: alternates_snoc edges_along_snoc)
qed

lemma bt_inv_push_x:
  assumes "bt_inv g st" and "path st \<noteq> []" and "fst (last (path st)) = ''Y''"
    and "0 \<le> v" and "v < g_n g" and "adjacent g (last (path st)) (''X'', v)"
    and "\<not> visited_x st ! nat v"
  shows "bt_inv g (st\<lparr> visited_x := (visited_x st)[nat v := True], path := path st @ [(''X'', v)] \<rparr>)"
proof -
  from assms(1) have inv:
    "length (visited_x st) = nat (g_n g)" "length (visited_y st) = nat (g_n g)"
    "alternates True (path st)" "edges_along g (path st)" "distinct (path st)"
    "\<forall>p\<in>set (path st). 0 \<le> snd p \<and> snd p < g_n g"
    "\<forall>i<nat (g_n g). visited_x st ! i \<longleftrightarrow> (''X'', int i) \<in> set (path st)"
    "\<forall>y<nat (g_n g). visited_y st ! y \<longleftrightarrow> (''Y'', int y) \<in> set (path st)"
    by (simp_all add: bt_inv_def)
  from alternates_last[OF inv(3) assms(2)] assms(3) have ev: "even (length (path st))"
    by (simp split: if_splits)
  from assms(4,5) have vn: "nat v < nat (g_n g)" by simp
  with inv(7) assms(7,4) have new: "(''X'', v) \<notin> set (path st)" by auto
  have vx: "\<forall>i<nat (g_n g). (visited_x st)[nat v := True] ! i \<longleftrightarrow> (''X'', int i) \<in> set (path st @ [(''X'', v)])"
  proof (intro allI impI)
    fix i assume i: "i < nat (g_n g)"
    show "(visited_x st)[nat v := True] ! i \<longleftrightarrow> (''X'', int i) \<in> set (path st @ [(''X'', v)])"
    proof (cases "i = nat v")
      case True
      with i inv(1) assms(4) show ?thesis by simp
    next
      case False
      with assms(4) have "int i \<noteq> v" by auto
      with False i inv(7) show ?thesis by simp
    qed
  qed
  show ?thesis
    unfolding bt_inv_def
    using inv ev new vx assms(2,4,5,6)
    by (simp add: alternates_snoc edges_along_snoc)
qed

lemma bt_inv_last_range:
  "bt_inv g st \<Longrightarrow> path st \<noteq> [] \<Longrightarrow> 0 \<le> snd (last (path st)) \<and> snd (last (path st)) < g_n g"
  by (simp add: bt_inv_def)

lemma bt_inv_hd:
  "bt_inv g st \<Longrightarrow> path st \<noteq> [] \<Longrightarrow>
   fst (hd (path st)) = ''X'' \<and> 0 \<le> snd (hd (path st)) \<and> snd (hd (path st)) < g_n g"
  using alternates_hd[of True "path st"] by (simp add: bt_inv_def)

lemma py_get_hd: "xs \<noteq> [] \<Longrightarrow> py_get xs 0 = Inr (hd xs)"
  by (cases xs) (simp_all add: py_get_def py_index_def)

lemma dfs_ok:
  "Construct n ys = Inr g \<Longrightarrow> y_neighbors_ok g yn \<Longrightarrow> bt_inv g st \<Longrightarrow> path st \<noteq> []
   \<Longrightarrow> last (path st) = (if current_is_x then ''X'' else ''Y'', current_idx)
   \<Longrightarrow> \<exists>r. dfs g yn current_is_x current_idx st = Inr r \<and> dfs_result_ok g st r"
  "Construct n ys = Inr g \<Longrightarrow> y_neighbors_ok g yn \<Longrightarrow> bt_inv g st \<Longrightarrow> path st \<noteq> []
   \<Longrightarrow> fst (last (path st)) = (if current_is_x then ''X'' else ''Y'')
   \<Longrightarrow> \<forall>v\<in>set vs. 0 \<le> v \<and> v < g_n g
          \<and> adjacent g (last (path st)) (if current_is_x then ''Y'' else ''X'', v)
   \<Longrightarrow> \<exists>r. dfs_loop g yn current_is_x vs st = Inr r \<and> dfs_result_ok g st r"
proof (induction g yn current_is_x current_idx st and g yn current_is_x vs st
       rule: dfs_dfs_loop.induct)
  case (1 g yn current_is_x current_idx st)
  note c = "1.prems"(1) and yok = "1.prems"(2) and inv = "1.prems"(3) and ne = "1.prems"(4)
    and lst = "1.prems"(5)
  from bt_inv_last_range[OF inv ne] lst have ir: "0 \<le> current_idx" "current_idx < g_n g" by simp_all
  show ?case
  proof (cases "int (length (path st)) = 2 * g_n g")
    case True
    from bt_inv_hd[OF inv ne] have hd: "fst (hd (path st)) = ''X''"
      "0 \<le> snd (hd (path st))" "snd (hd (path st)) < g_n g" by simp_all
    show ?thesis
    proof (cases current_is_x)
      case T: True
      with True hd ne show ?thesis
        by (simp add: py_get_hd dfs_result_ok_def)
    next
      case F: False
      from hd Construct_lengths(2)[OF c]
      have e: "is_edge g (snd (hd (path st))) current_idx
               = Inr (current_idx \<in> set (neighbors_x g ! nat (snd (hd (path st)))))"
        by (simp add: is_edge_def py_get_in_range)
      have "adjacent g (last (path st)) (hd (path st))"
        if "current_idx \<in> set (neighbors_x g ! nat (snd (hd (path st))))"
        using that Construct_edge_iff[OF c hd(2,3), of current_idx] lst F hd(1)
        by (simp add: adjacent_def)
      with True F hd ne e inv show ?thesis
        by (simp add: py_get_hd dfs_result_ok_def closes_cycle_def)
    qed
  next
    case False
    show ?thesis
    proof (cases current_is_x)
      case T: True
      from ir Construct_lengths(2)[OF c]
      have nb: "py_get (neighbors_x g) current_idx = Inr (neighbors_x g ! nat current_idx)"
        by (simp add: py_get_in_range)
      have "\<forall>v\<in>set (neighbors_x g ! nat current_idx). 0 \<le> v \<and> v < g_n g
              \<and> adjacent g (last (path st)) (if True then ''Y'' else ''X'', v)"
        using Construct_neighbor_range[OF c ir] Construct_edge_iff[OF c ir] lst T
        by (auto simp: adjacent_def)
      moreover from lst T have "fst (last (path st)) = (if True then ''X'' else ''Y'')" by simp
      ultimately obtain r where
        "dfs_loop g yn True (neighbors_x g ! nat current_idx) st = Inr r" "dfs_result_ok g st r"
        using "1.IH"(1)[OF False T nb c yok inv ne] by blast
      with False T nb show ?thesis by simp
    next
      case F: False
      from yok have len: "length yn = nat (g_n g)" by (simp add: y_neighbors_ok_def)
      with ir have nb: "py_get yn current_idx = Inr (yn ! nat current_idx)"
        by (simp add: py_get_in_range)
      have "\<forall>v\<in>set (yn ! nat current_idx). 0 \<le> v \<and> v < g_n g
              \<and> adjacent g (last (path st)) (if False then ''Y'' else ''X'', v)"
      proof
        fix v assume vin: "v \<in> set (yn ! nat current_idx)"
        from ir have "nat current_idx < nat (g_n g)" by simp
        with yok vin have "0 \<le> v \<and> v < g_n g \<and> int (nat current_idx) \<in> set (neighbors_x g ! nat v)"
          unfolding y_neighbors_ok_def by blast
        then have v: "0 \<le> v" "v < g_n g" "int (nat current_idx) \<in> set (neighbors_x g ! nat v)"
          by simp_all
        with ir Construct_edge_iff[OF c v(1,2), of current_idx]
        have "(''X'', v, ''Y'', current_idx) \<in> edges g" by simp
        with v lst F show "0 \<le> v \<and> v < g_n g
              \<and> adjacent g (last (path st)) (if False then ''Y'' else ''X'', v)"
          by (simp add: adjacent_def)
      qed
      moreover from lst F have "fst (last (path st)) = (if False then ''X'' else ''Y'')" by simp
      ultimately obtain r where
        "dfs_loop g yn False (yn ! nat current_idx) st = Inr r" "dfs_result_ok g st r"
        using "1.IH"(2)[OF False F nb c yok inv ne] by blast
      with False F nb show ?thesis by simp
    qed
  qed
next
  case (2 g yn current_is_x st)
  then show ?case by (simp add: dfs_result_ok_def)
next
  case (3 g yn current_is_x v vs st)
  note c = "3.prems"(1) and yok = "3.prems"(2) and inv = "3.prems"(3) and ne = "3.prems"(4)
    and lst = "3.prems"(5) and nbs = "3.prems"(6)
  from nbs have vr: "0 \<le> v" "v < g_n g"
    and adj: "adjacent g (last (path st)) (if current_is_x then ''Y'' else ''X'', v)"
    and rest: "\<forall>v\<in>set vs. 0 \<le> v \<and> v < g_n g
          \<and> adjacent g (last (path st)) (if current_is_x then ''Y'' else ''X'', v)"
    by simp_all
  from inv have lens: "length (visited_x st) = nat (g_n g)" "length (visited_y st) = nat (g_n g)"
    by (simp_all add: bt_inv_def)
  show ?case
  proof (cases current_is_x)
    case T: True
    from vr lens have seen: "py_get (visited_y st) v = Inr (visited_y st ! nat v)"
      by (simp add: py_get_in_range)
    show ?thesis
    proof (cases "visited_y st ! nat v")
      case True
      from "3.IH"(1)[OF T seen True c yok inv ne lst rest] T seen True show ?thesis by simp
    next
      case False
      let ?st1 = "st\<lparr> visited_y := (visited_y st)[nat v := True], path := path st @ [(''Y'', v)] \<rparr>"
      from vr lens have mark: "py_set (visited_y st) v True = Inr ((visited_y st)[nat v := True])"
        by (simp add: py_set_in_range)
      from lst T adj have inv1: "bt_inv g ?st1"
        by (intro bt_inv_push_y[OF inv ne _ vr _ False]) simp_all
      from "3.IH"(2)[OF T seen False mark c yok inv1] obtain r where
        r: "dfs g yn False v ?st1 = Inr r" "dfs_result_ok g ?st1 r" by auto
      show ?thesis
      proof (cases "fst r")
        case True
        with r T seen False mark show ?thesis by (simp add: dfs_result_ok_def)
      next
        case F: False
        with r(2) have r1: "snd r = ?st1" by (simp add: dfs_result_ok_def)
        have pne: "path (snd r) \<noteq> []" by (simp add: r1)
        from vr lens have unmark: "py_set (visited_y (snd r)) v False = Inr (visited_y st)"
          using False by (simp add: r1 py_set_in_range list_update_False_same)
        have restored: "(snd r)\<lparr> path := butlast (path (snd r)), visited_y := visited_y st \<rparr> = st"
          by (simp add: r1)
        from "3.IH"(3)[OF T seen False mark r(1) F pne unmark c yok] inv ne lst rest
        obtain r' where "dfs_loop g yn current_is_x vs st = Inr r'" "dfs_result_ok g st r'"
          by (auto simp: restored)
        with r(1) F T seen False mark pne unmark restored show ?thesis by simp
      qed
    qed
  next
    case Fx: False
    from vr lens have seen: "py_get (visited_x st) v = Inr (visited_x st ! nat v)"
      by (simp add: py_get_in_range)
    show ?thesis
    proof (cases "visited_x st ! nat v")
      case True
      from "3.IH"(4)[OF Fx seen True c yok inv ne lst rest] Fx seen True show ?thesis by simp
    next
      case False
      let ?st1 = "st\<lparr> visited_x := (visited_x st)[nat v := True], path := path st @ [(''X'', v)] \<rparr>"
      from vr lens have mark: "py_set (visited_x st) v True = Inr ((visited_x st)[nat v := True])"
        by (simp add: py_set_in_range)
      from lst Fx adj have inv1: "bt_inv g ?st1"
        by (intro bt_inv_push_x[OF inv ne _ vr _ False]) simp_all
      from "3.IH"(5)[OF Fx seen False mark c yok inv1] obtain r where
        r: "dfs g yn True v ?st1 = Inr r" "dfs_result_ok g ?st1 r" by auto
      show ?thesis
      proof (cases "fst r")
        case True
        with r Fx seen False mark show ?thesis by (simp add: dfs_result_ok_def)
      next
        case F: False
        with r(2) have r1: "snd r = ?st1" by (simp add: dfs_result_ok_def)
        have pne: "path (snd r) \<noteq> []" by (simp add: r1)
        from vr lens have unmark: "py_set (visited_x (snd r)) v False = Inr (visited_x st)"
          using False by (simp add: r1 py_set_in_range list_update_False_same)
        have restored: "(snd r)\<lparr> path := butlast (path (snd r)), visited_x := visited_x st \<rparr> = st"
          by (simp add: r1)
        from "3.IH"(6)[OF Fx seen False mark r(1) F pne unmark c yok] inv ne lst rest
        obtain r' where "dfs_loop g yn current_is_x vs st = Inr r'" "dfs_result_ok g st r'"
          by (auto simp: restored)
        with r(1) F Fx seen False mark pne unmark restored show ?thesis by simp
      qed
    qed
  qed
qed

text \<open>
  A path that alternates, repeats no vertex, stays in the index range and has \<open>2n\<close>
  vertices visits every vertex of either side: \<open>n\<close> distinct vertices among \<open>n\<close>.
\<close>

lemma count_list_distinct: "distinct xs \<Longrightarrow> x \<in> set xs \<Longrightarrow> count_list xs x = 1"
  by (induction xs) auto

lemma tagged_all_visited:
  assumes "distinct ps" and "\<forall>p\<in>set ps. 0 \<le> snd p \<and> snd p < n"
    and "length (filter (\<lambda>p. fst p = tag) ps) = nat n" and "0 \<le> i" and "i < n"
  shows "count_list ps (tag, i) = 1"
proof -
  let ?A = "set (filter (\<lambda>p. fst p = tag) ps)"
  let ?B = "(\<lambda>j. (tag, j)) ` {0..n - 1}"
  have fin: "finite ?B" by simp
  have sub: "?A \<subseteq> ?B"
  proof
    fix p assume "p \<in> ?A"
    then have "p \<in> set ps" "fst p = tag" by auto
    with assms(2) have "0 \<le> snd p" "snd p \<le> n - 1" "p = (tag, snd p)" by auto
    then show "p \<in> ?B" by (metis atLeastAtMost_iff imageI)
  qed
  have "distinct (filter (\<lambda>p. fst p = tag) ps)" using assms(1) by simp
  then have "card ?A = length (filter (\<lambda>p. fst p = tag) ps)"
    by (rule distinct_card)
  moreover have "card ?B = nat n"
  proof -
    have "inj_on (\<lambda>j. (tag, j)) {0..n - 1}" by (simp add: inj_on_def)
    then have "card ?B = card {0..n - 1}" by (rule card_image)
    then show ?thesis by simp
  qed
  ultimately have "card ?A = card ?B" using assms(3) by simp
  with fin sub have "?A = ?B" by (rule card_subset_eq)
  moreover from assms(4,5) have "(tag, i) \<in> ?B" by auto
  ultimately have "(tag, i) \<in> set ps" by auto
  with assms(1) show ?thesis by (rule count_list_distinct)
qed

lemma closes_cycle_hamiltonian:
  assumes "closes_cycle g st"
  shows "is_hamiltonian_cycle g (path st)"
proof -
  from assms have inv: "alternates True (path st)" "edges_along g (path st)" "distinct (path st)"
    "\<forall>p\<in>set (path st). 0 \<le> snd p \<and> snd p < g_n g"
    and len: "int (length (path st)) = 2 * g_n g"
    and adj: "adjacent g (last (path st)) (hd (path st))"
    by (simp_all add: closes_cycle_def bt_inv_def)
  from len have l2: "length (path st) = 2 * nat (g_n g)" by linarith
  from alternates_count_X[OF inv(1)] l2
  have cx: "length (filter (\<lambda>p. fst p = ''X'') (path st)) = nat (g_n g)" by simp
  from alternates_count_Y[OF inv(1)] l2
  have cy: "length (filter (\<lambda>p. fst p = ''Y'') (path st)) = nat (g_n g)" by simp
  have "visits_once (g_n g) ''X'' (path st)"
    unfolding visits_once_def list_all_iff
    using tagged_all_visited[OF inv(3,4) cx] by auto
  moreover have "visits_once (g_n g) ''Y'' (path st)"
    unfolding visits_once_def list_all_iff
    using tagged_all_visited[OF inv(3,4) cy] by auto
  ultimately show ?thesis
    using inv len adj by (simp add: is_hamiltonian_cycle_def)
qed

lemma for_each_reset_markers:
  assumes "length (visited_x st) = nat n" and "length (visited_y st) = nat n"
    and "\<forall>i\<in>set js. 0 \<le> i \<and> i < n"
  shows "\<exists>st'. for_each reset_markers js st = Inr st'
           \<and> length (visited_x st') = nat n \<and> length (visited_y st') = nat n
           \<and> (\<forall>j<nat n. visited_x st' ! j = (if int j \<in> set js then False else visited_x st ! j))
           \<and> (\<forall>j<nat n. visited_y st' ! j = (if int j \<in> set js then False else visited_y st ! j))"
  using assms
proof (induction js arbitrary: st)
  case Nil
  then show ?case by simp
next
  case (Cons i js)
  let ?st1 = "st\<lparr> visited_x := (visited_x st)[nat i := False], visited_y := (visited_y st)[nat i := False] \<rparr>"
  from Cons.prems have i: "0 \<le> i" "i < n" by simp_all
  with Cons.prems(1,2) have r: "reset_markers i st = Inr ?st1"
    by (simp add: reset_markers_def py_set_in_range)
  from Cons.prems have "\<forall>i\<in>set js. 0 \<le> i \<and> i < n" by simp
  from Cons.IH[of ?st1, OF _ _ this] Cons.prems(1,2) obtain st' where
    st': "for_each reset_markers js ?st1 = Inr st'"
      "length (visited_x st') = nat n" "length (visited_y st') = nat n"
      "\<forall>j<nat n. visited_x st' ! j = (if int j \<in> set js then False else visited_x ?st1 ! j)"
      "\<forall>j<nat n. visited_y st' ! j = (if int j \<in> set js then False else visited_y ?st1 ! j)"
    by auto
  have "visited_x st' ! j = (if int j \<in> set (i # js) then False else visited_x st ! j)"
    and "visited_y st' ! j = (if int j \<in> set (i # js) then False else visited_y st ! j)"
    if "j < nat n" for j
    using st'(4,5) that i Cons.prems(1,2) by (auto simp: nth_list_update)
  with st'(1,2,3) r show ?case by simp
qed

lemma start_state_inv:
  assumes "length (visited_x st) = nat (g_n g)" and "length (visited_y st) = nat (g_n g)"
    and "\<forall>j<nat (g_n g). \<not> visited_x st ! j" and "\<forall>j<nat (g_n g). \<not> visited_y st ! j"
    and "0 \<le> start" and "start < g_n g"
  shows "bt_inv g (st\<lparr> visited_x := (visited_x st)[nat start := True], path := [(''X'', start)] \<rparr>)"
  unfolding bt_inv_def using assms by (auto simp: nth_list_update)

lemma try_starts_ok:
  assumes c: "Construct n ys = Inr g" and yok: "y_neighbors_ok g yn"
  shows "length (visited_x st) = nat (g_n g) \<Longrightarrow> length (visited_y st) = nat (g_n g)
         \<Longrightarrow> \<forall>s\<in>set starts. 0 \<le> s \<and> s < g_n g
         \<Longrightarrow> \<exists>r. try_starts g yn starts st = Inr r
                 \<and> (\<forall>cycle. r = Some cycle \<longrightarrow> is_hamiltonian_cycle g cycle)"
proof (induction starts arbitrary: st)
  case Nil
  then show ?case by simp
next
  case (Cons start rest)
  from Cons.prems(3) have sr: "0 \<le> start" "start < g_n g" by simp_all
  have "\<forall>i\<in>set [0..g_n g - 1]. 0 \<le> i \<and> i < g_n g" by simp
  from for_each_reset_markers[OF Cons.prems(1,2) this] obtain st1 where
    st1: "for_each reset_markers [0..g_n g - 1] st = Inr st1"
      "length (visited_x st1) = nat (g_n g)" "length (visited_y st1) = nat (g_n g)"
      "\<forall>j<nat (g_n g). visited_x st1 ! j = (if int j \<in> set [0..g_n g - 1] then False else visited_x st ! j)"
      "\<forall>j<nat (g_n g). visited_y st1 ! j = (if int j \<in> set [0..g_n g - 1] then False else visited_y st ! j)"
    by blast
  from st1(4,5) have clr: "\<forall>j<nat (g_n g). \<not> visited_x st1 ! j" "\<forall>j<nat (g_n g). \<not> visited_y st1 ! j"
    by auto
  let ?st2 = "st1\<lparr> visited_x := (visited_x st1)[nat start := True], path := [(''X'', start)] \<rparr>"
  from sr st1(2) have mark: "py_set (visited_x st1) start True = Inr ((visited_x st1)[nat start := True])"
    by (simp add: py_set_in_range)
  have inv2: "bt_inv g ?st2" by (rule start_state_inv[OF st1(2,3) clr sr])
  from dfs_ok(1)[OF c yok inv2, of True start] obtain r where
    r: "dfs g yn True start ?st2 = Inr r" "dfs_result_ok g ?st2 r" by auto
  show ?case
  proof (cases "fst r")
    case True
    with r(2) have "is_hamiltonian_cycle g (path (snd r))"
      by (simp add: dfs_result_ok_def closes_cycle_hamiltonian)
    with True r(1) st1(1) mark show ?thesis by simp
  next
    case False
    with r(2) have "snd r = ?st2" by (simp add: dfs_result_ok_def)
    with st1(2,3) have "length (visited_x (snd r)) = nat (g_n g)" "length (visited_y (snd r)) = nat (g_n g)"
      by simp_all
    from Cons.IH[OF this] Cons.prems(3) obtain r' where
      "try_starts g yn rest (snd r) = Inr r'" "\<forall>cycle. r' = Some cycle \<longrightarrow> is_hamiltonian_cycle g cycle"
      by auto
    with False r(1) st1(1) mark show ?thesis by simp
  qed
qed

text \<open>
  C2: on a constructed graph \<open>find_cycle\<close> returns (it raises nothing); whenever it returns
  a sequence, the sequence has length \<open>2n\<close>, alternates \<open>X\<close> and \<open>Y\<close>, visits every index of
  either side exactly once, follows edges, and its last vertex is adjacent to its first;
  for \<open>n = 0\<close> it returns the empty sequence, not \<open>None\<close>.
\<close>

theorem find_cycle_returns_hamiltonian_cycle:
  assumes "Construct n ys = Inr g"
  shows "(\<exists>r. find_cycle g = Inr r)
         \<and> (\<forall>cycle. find_cycle g = Inr (Some cycle) \<longrightarrow> is_hamiltonian_cycle g cycle)
         \<and> (n = 0 \<longrightarrow> find_cycle g = Inr (Some []))"
proof -
  from Construct_Inr(3)[OF assms] have n: "g_n g = n" by (simp add: fully_built_def)
  show ?thesis
  proof (cases "n = 0")
    case True
    with n have "find_cycle g = Inr (Some [])" by (simp add: find_cycle_def)
    moreover from True n have "is_hamiltonian_cycle g []"
      by (simp add: is_hamiltonian_cycle_def visits_once_def)
    ultimately show ?thesis by simp
  next
    case False
    from build_y_neighbors_ok[OF assms] obtain yn where
      yn: "build_y_neighbors g = Inr yn" "y_neighbors_ok g yn" by blast
    let ?st0 = "\<lparr> visited_x = replicate (nat (g_n g)) False,
                  visited_y = replicate (nat (g_n g)) False, path = [] \<rparr>"
    have "\<forall>s\<in>set [0..g_n g - 1]. 0 \<le> s \<and> s < g_n g" by simp
    from try_starts_ok[OF assms yn(2), of ?st0, OF _ _ this] obtain r where
      "try_starts g yn [0..g_n g - 1] ?st0 = Inr r"
      "\<forall>cycle. r = Some cycle \<longrightarrow> is_hamiltonian_cycle g cycle" by auto
    with False n yn(1) show ?thesis by (simp add: find_cycle_def)
  qed
qed

theorem find_cycle_returns_hamiltonian_cycle_witness:
  "Construct 3 hamiltonian_n3_y_vertices = Inr hamiltonian_n3_graph
   \<and> find_cycle hamiltonian_n3_graph = Inr (Some n3_cycle)
   \<and> is_hamiltonian_cycle hamiltonian_n3_graph n3_cycle
   \<and> Construct 0 [] = Inr empty_graph
   \<and> find_cycle empty_graph = Inr (Some [])"
  using find_cycle_returns_hamiltonian_cycle[OF Construct_hamiltonian_n3]
    find_cycle_returns_hamiltonian_cycle[OF Construct_empty]
    Construct_hamiltonian_n3 Construct_empty find_cycle_hamiltonian_n3
  by blast

end
